theory Spec2Isabelle
  imports Complex_Main "HOL-Library.AList" "HOL-Library.Multiset" "HOL-Library.Product_Lexorder"
begin

section \<open>The sparse voxel grid of pybullet\_tools/voxels.py\<close>

text \<open>
  A voxel is a triple of Python integers. World and grid coordinates are numpy floats in
  the source; they are modelled as exact reals, so rounding, overflow, infinities and NaN
  are outside the model. Tuples of integers are compared lexicographically, as Python
  compares tuples (the product order of \<open>Product_Lexorder\<close>).
\<close>

type_synonym voxel = "int \<times> int \<times> int"
type_synonym point = "real \<times> real \<times> real"

text \<open>The exceptions that the modelled methods can raise.\<close>

datatype error = AssertionError | AttributeError | IndexError | KeyError | ValueError

text \<open>
  Modelled from the spec: a pose is a rigid transform (translation and rotation); its
  helpers \<open>tform_point\<close> and \<open>invert\<close> live in the utilities module, which is not among the
  sources at hand. A pose is kept as the two point maps through which the grid uses it:
  \<open>tform_point(pose, p)\<close> and \<open>tform_point(invert(pose), p)\<close>.
\<close>

record pose =
  tform_point :: "point \<Rightarrow> point"
  tform_point_inverse :: "point \<Rightarrow> point"

definition unit_pose :: pose where
  "unit_pose = \<lparr>tform_point = (\<lambda>p. p), tform_point_inverse = (\<lambda>p. p)\<rparr>"

text \<open>
  The fields of \<open>VoxelGrid\<close> that the modelled methods read or write. \<open>default\<close> is the
  value that the factory \<open>self.default()\<close> returns. The dictionary \<open>value_from_voxel\<close> is
  an association list in insertion order.
\<close>

record 'v VoxelGrid =
  resolutions :: point
  default :: 'v
  value_from_voxel :: "(voxel \<times> 'v) list"
  world_from_grid :: pose
  occupied_points :: "point list"
  occupied_voxel_points :: "voxel list"

definition init :: "point \<Rightarrow> 'v \<Rightarrow> pose \<Rightarrow> 'v VoxelGrid" where
  "init res d wfg =
     \<lparr>resolutions = res, default = d, value_from_voxel = [], world_from_grid = wfg,
      occupied_points = [], occupied_voxel_points = []\<rparr>"

definition len :: "'v VoxelGrid \<Rightarrow> nat" where
  "len g = length (value_from_voxel g)"

definition occupied :: "'v VoxelGrid \<Rightarrow> voxel list" where
  "occupied g = sort (map fst (value_from_voxel g))"

text \<open>\<open>copy\<close> builds a fresh grid and copies the dictionary only.\<close>

definition copy :: "'v VoxelGrid \<Rightarrow> 'v VoxelGrid" where
  "copy g = (init (resolutions g) (default g) (world_from_grid g))
              \<lparr>value_from_voxel := value_from_voxel g\<rparr>"

subsection \<open>Coordinates\<close>

definition to_grid :: "'v VoxelGrid \<Rightarrow> point \<Rightarrow> point" where
  "to_grid g point_world = tform_point_inverse (world_from_grid g) point_world"

definition to_world :: "'v VoxelGrid \<Rightarrow> point \<Rightarrow> point" where
  "to_world g point_grid = tform_point (world_from_grid g) point_grid"

text \<open>
  \<open>np.floor(np.divide(point_grid, resolutions)).astype(int)\<close>. With a zero resolution
  numpy divides to an infinity or NaN; the model is meant for non-zero resolutions.
\<close>

definition voxel_from_point :: "'v VoxelGrid \<Rightarrow> point \<Rightarrow> voxel" where
  "voxel_from_point g p =
     (case (to_grid g p, resolutions g) of
        ((x, y, z), (rx, ry, rz)) \<Rightarrow> (\<lfloor>x / rx\<rfloor>, \<lfloor>y / ry\<rfloor>, \<lfloor>z / rz\<rfloor>))"

definition lower_from_voxel :: "'v VoxelGrid \<Rightarrow> point \<Rightarrow> point" where
  "lower_from_voxel g v =
     (case (v, resolutions g) of ((x, y, z), (rx, ry, rz)) \<Rightarrow> (x * rx, y * ry, z * rz))"

definition as_point :: "voxel \<Rightarrow> point" where
  "as_point v = (case v of (i, j, k) \<Rightarrow> (of_int i, of_int j, of_int k))"

definition shift :: "point \<Rightarrow> real \<Rightarrow> point" where
  "shift p d = (case p of (x, y, z) \<Rightarrow> (x + d, y + d, z + d))"

text \<open>
  The coordinates are binary64 floats in the source and reals here. The two part for
  indices too large for a float to hold exactly: at resolution 1 the voxels
  (2^52 + 1, 0, 0) and (2^52 + 2, 0, 0) get the same float centre. No property below
  relies on distinct voxels having distinct centres; where a centre has to be new to the
  cache, that is a hypothesis.
\<close>

definition center_from_voxel :: "'v VoxelGrid \<Rightarrow> voxel \<Rightarrow> point" where
  "center_from_voxel g v = lower_from_voxel g (shift (as_point v) (1 / 2))"

definition upper_from_voxel :: "'v VoxelGrid \<Rightarrow> voxel \<Rightarrow> point" where
  "upper_from_voxel g v = lower_from_voxel g (shift (as_point v) 1)"

definition aabb_from_voxel :: "'v VoxelGrid \<Rightarrow> voxel \<Rightarrow> point \<times> point" where
  "aabb_from_voxel g v = (lower_from_voxel g (as_point v), upper_from_voxel g v)"

subsection \<open>The occupancy dictionary and its cache\<close>

definition contains :: "'v VoxelGrid \<Rightarrow> voxel \<Rightarrow> bool" where
  "contains g v = (map_of (value_from_voxel g) v \<noteq> None)"

abbreviation is_occupied :: "'v VoxelGrid \<Rightarrow> voxel \<Rightarrow> bool" where
  "is_occupied \<equiv> contains"

text \<open>
  \<open>assert self.contains(voxel)\<close> guards the lookup; were assertions switched off, the
  lookup itself would raise.
\<close>

definition get_value :: "'v VoxelGrid \<Rightarrow> voxel \<Rightarrow> error + 'v" where
  "get_value g v =
     (if \<not> contains g v then Inl AssertionError
      else case map_of (value_from_voxel g) v of
             None \<Rightarrow> Inl KeyError
           | Some x \<Rightarrow> Inr x)"

definition set_value :: "'v VoxelGrid \<Rightarrow> voxel \<Rightarrow> 'v \<Rightarrow> 'v VoxelGrid" where
  "set_value g v x = g\<lparr>value_from_voxel := AList.update v x (value_from_voxel g)\<rparr>"

definition remove_value :: "'v VoxelGrid \<Rightarrow> voxel \<Rightarrow> 'v VoxelGrid" where
  "remove_value g v =
     (if contains g v then g\<lparr>value_from_voxel := AList.delete v (value_from_voxel g)\<rparr>
      else g)"

text \<open>Both mutators return the grid they leave behind together with their result.\<close>

definition set_occupied :: "'v VoxelGrid \<Rightarrow> voxel \<Rightarrow> 'v VoxelGrid \<times> bool" where
  "set_occupied g v =
     (if is_occupied g v then (g, False)
      else
        let g1 = set_value g v (default g);
            g2 = g1\<lparr>occupied_points := occupied_points g1 @ [center_from_voxel g1 v]\<rparr>;
            g3 = g2\<lparr>occupied_voxel_points := occupied_voxel_points g2 @ [v]\<rparr>
        in (g3, True))"

text \<open>\<open>list.index\<close>: the position of the first equal element, \<open>None\<close> for ValueError.\<close>

fun list_index :: "'a list \<Rightarrow> 'a \<Rightarrow> nat option" where
  "list_index [] x = None"
| "list_index (y # ys) x = (if y = x then Some 0 else map_option Suc (list_index ys x))"

text \<open>
  \<open>list.remove\<close> deletes the first equal element, which is \<open>remove1\<close>; it is only ever
  called with an element just read from the same list. An exception leaves the method
  half way; the model then returns the exception alone.
\<close>

definition set_free :: "'v VoxelGrid \<Rightarrow> voxel \<Rightarrow> error + ('v VoxelGrid \<times> bool)" where
  "set_free g v =
     (if \<not> is_occupied g v then Inr (g, False)
      else
        let g1 = remove_value g v in
        case list_index (occupied_points g1) (center_from_voxel g1 v) of
          None \<Rightarrow> Inl ValueError
        | Some idx \<Rightarrow>
            let g2 = g1\<lparr>occupied_points :=
                         remove1 (occupied_points g1 ! idx) (occupied_points g1)\<rparr>
            in if idx < length (occupied_voxel_points g2)
               then Inr (g2\<lparr>occupied_voxel_points :=
                              remove1 (occupied_voxel_points g2 ! idx)
                                      (occupied_voxel_points g2)\<rparr>, True)
               else Inl IndexError)"

subsection \<open>Consistency of the cache with the dictionary\<close>

text \<open>
  The cache is in lockstep with the dictionary when the keys are distinct (as the keys of
  a Python dictionary are), every cached centre sits at the index of its voxel, and the
  cached centres are, counted with multiplicity, the centres of the keys.
\<close>

definition lockstep :: "'v VoxelGrid \<Rightarrow> bool" where
  "lockstep g \<longleftrightarrow>
     distinct (map fst (value_from_voxel g)) \<and>
     occupied_points g = map (center_from_voxel g) (occupied_voxel_points g) \<and>
     mset (occupied_points g) = mset (map (center_from_voxel g) (map fst (value_from_voxel g)))"

definition positive_resolutions :: "'v VoxelGrid \<Rightarrow> bool" where
  "positive_resolutions g =
     (case resolutions g of (rx, ry, rz) \<Rightarrow> 0 < rx \<and> 0 < ry \<and> 0 < rz)"

subsection \<open>Candidate voxels of a box\<close>

text \<open>
  Modelled from the spec: \<open>get_aabb_vertices\<close> and \<open>aabb_from_points\<close> are imported
  from the utilities module, which is not among the sources at hand. The spec describes
  them through \<open>voxels_from_aabb\<close>: the 8 vertices of the box, and the per-axis minimum
  and maximum of a list of points (numpy's reduction raises ValueError on no points).
\<close>

definition get_aabb_vertices :: "point \<times> point \<Rightarrow> point list" where
  "get_aabb_vertices aabb =
     (case aabb of ((lx, ly, lz), (ux, uy, uz)) \<Rightarrow>
        [(x, y, z). x \<leftarrow> [lx, ux], y \<leftarrow> [ly, uy], z \<leftarrow> [lz, uz]])"

definition vmin :: "voxel \<Rightarrow> voxel \<Rightarrow> voxel" where
  "vmin a b = (case (a, b) of ((i, j, k), (i', j', k')) \<Rightarrow> (min i i', min j j', min k k'))"

definition vmax :: "voxel \<Rightarrow> voxel \<Rightarrow> voxel" where
  "vmax a b = (case (a, b) of ((i, j, k), (i', j', k')) \<Rightarrow> (max i i', max j j', max k k'))"

definition aabb_from_points :: "voxel list \<Rightarrow> error + (voxel \<times> voxel)" where
  "aabb_from_points ps =
     (case ps of [] \<Rightarrow> Inl ValueError
      | q # qs \<Rightarrow> Inr (fold vmin qs q, fold vmax qs q))"

text \<open>\<open>product(range(l0, u0 + 1), range(l1, u1 + 1), range(l2, u2 + 1))\<close>.\<close>

definition product_ranges :: "voxel \<Rightarrow> voxel \<Rightarrow> voxel list" where
  "product_ranges lo hi =
     (case (lo, hi) of ((li, lj, lk), (ui, uj, uk)) \<Rightarrow>
        [(i, j, k). i \<leftarrow> [li..ui], j \<leftarrow> [lj..uj], k \<leftarrow> [lk..uk]])"

definition voxels_from_aabb :: "'v VoxelGrid \<Rightarrow> point \<times> point \<Rightarrow> error + voxel list" where
  "voxels_from_aabb g aabb =
     (case aabb_from_points (map (voxel_from_point g) (get_aabb_vertices aabb)) of
        Inl e \<Rightarrow> Inl e
      | Inr (voxel_lower, voxel_upper) \<Rightarrow> Inr (product_ranges voxel_lower voxel_upper))"

subsection \<open>Bulk mutation\<close>

definition add_point :: "'v VoxelGrid \<Rightarrow> point \<Rightarrow> 'v VoxelGrid" where
  "add_point g p = fst (set_occupied g (voxel_from_point g p))"

definition add_aabb :: "'v VoxelGrid \<Rightarrow> point \<times> point \<Rightarrow> error + 'v VoxelGrid" where
  "add_aabb g aabb =
     (case voxels_from_aabb g aabb of
        Inl e \<Rightarrow> Inl e
      | Inr vs \<Rightarrow> Inr (fold (\<lambda>voxel h. fst (set_occupied h voxel)) vs g))"

text \<open>
  The collision backend is external. \<open>get_affected\<close> receives what it reports as the list
  \<open>links\<close> of (body, link) pairs with their boxes, in the order of the two nested loops,
  and \<open>check_collision\<close> as a predicate on a voxel and the pairs recorded for it.
\<close>

fun get_affected ::
  "'v VoxelGrid \<Rightarrow> ('b \<times> (point \<times> point)) list \<Rightarrow> bool \<Rightarrow> (voxel \<times> 'b list) list
     \<Rightarrow> error + (voxel \<times> 'b list) list" where
  "get_affected g [] occ check_voxels = Inr check_voxels"
| "get_affected g ((pair, aabb) # links) occ check_voxels =
     (case voxels_from_aabb g aabb of
        Inl e \<Rightarrow> Inl e
      | Inr vs \<Rightarrow>
          get_affected g links occ
            (fold (\<lambda>voxel cv. if is_occupied g voxel = occ
                               then AList.update_with_aux [] voxel (\<lambda>l. l @ [pair]) cv
                               else cv) vs check_voxels))"

fun add_loop ::
  "(voxel \<Rightarrow> 'b list \<Rightarrow> bool) \<Rightarrow> 'v VoxelGrid \<Rightarrow> (voxel \<times> 'b list) list \<Rightarrow> 'v VoxelGrid" where
  "add_loop check_collision g [] = g"
| "add_loop check_collision g ((voxel, pairs) # rest) =
     add_loop check_collision
       (if check_collision voxel pairs then fst (set_occupied g voxel) else g) rest"

fun remove_loop ::
  "(voxel \<Rightarrow> 'b list \<Rightarrow> bool) \<Rightarrow> 'v VoxelGrid \<Rightarrow> (voxel \<times> 'b list) list
     \<Rightarrow> error + 'v VoxelGrid" where
  "remove_loop check_collision g [] = Inr g"
| "remove_loop check_collision g ((voxel, pairs) # rest) =
     (if check_collision voxel pairs
      then (case set_free g voxel of
              Inl e \<Rightarrow> Inl e
            | Inr (g', _) \<Rightarrow> remove_loop check_collision g' rest)
      else remove_loop check_collision g rest)"

definition add_bodies ::
  "(voxel \<Rightarrow> 'b list \<Rightarrow> bool) \<Rightarrow> 'v VoxelGrid \<Rightarrow> ('b \<times> (point \<times> point)) list
     \<Rightarrow> error + 'v VoxelGrid" where
  "add_bodies check_collision g links =
     (case get_affected g links False [] of
        Inl e \<Rightarrow> Inl e
      | Inr check_voxels \<Rightarrow> Inr (add_loop check_collision g check_voxels))"

definition remove_bodies ::
  "(voxel \<Rightarrow> 'b list \<Rightarrow> bool) \<Rightarrow> 'v VoxelGrid \<Rightarrow> ('b \<times> (point \<times> point)) list
     \<Rightarrow> error + 'v VoxelGrid" where
  "remove_bodies check_collision g links =
     (case get_affected g links True [] of
        Inl e \<Rightarrow> Inl e
      | Inr check_voxels \<Rightarrow> remove_loop check_collision g check_voxels)"

subsection \<open>Ray tracing\<close>

text \<open>
  After the test of the start cell, the method evaluates \<open>self.get_index(goal_point)\<close>.
  \<open>VoxelGrid\<close> defines no attribute \<open>get_index\<close> (nor \<open>get_center\<close>, \<open>get_min\<close>,
  \<open>get_max\<close>, which the rest of the body uses; the method is marked "finish adapting"),
  so Python raises AttributeError there and nothing after that line runs.
\<close>

definition ray_trace :: "'v VoxelGrid \<Rightarrow> voxel \<Rightarrow> point \<Rightarrow> error + (voxel list \<times> bool)" where
  "ray_trace g start_cell goal_point =
     (if is_occupied g start_cell then Inr ([], False) else Inl AttributeError)"

subsection \<open>Clusters\<close>

text \<open>
  \<open>np.array(index) + direction\<close> is an addition of int64 arrays, which wraps around at
  the ends of the range. The model is meant for indices that fit int64; numpy gives an
  array of larger Python integers another type.
\<close>

definition int64 :: "int \<Rightarrow> int" where
  "int64 x = (x + 2 ^ 63) mod 2 ^ 64 - 2 ^ 63"

definition get_neighbors :: "voxel \<Rightarrow> voxel list" where
  "get_neighbors index =
     (case index of (i, j, k) \<Rightarrow>
        [(int64 (i - 1), int64 j, int64 k), (int64 (i + 1), int64 j, int64 k),
         (int64 i, int64 (j - 1), int64 k), (int64 i, int64 (j + 1), int64 k),
         (int64 i, int64 j, int64 (k - 1)), (int64 i, int64 j, int64 (k + 1))])"

text \<open>
  The nested function \<open>dfs\<close> calls itself for each neighbour and shares the set
  \<open>assigned\<close>; the model threads that set. The first argument is the number of nested
  calls the interpreter still allows: \<open>None\<close> is Python's RecursionError.
\<close>

fun dfs :: "nat \<Rightarrow> 'v VoxelGrid \<Rightarrow> voxel set \<Rightarrow> voxel \<Rightarrow> (voxel list \<times> voxel set) option"
  and dfs_neighbors ::
    "nat \<Rightarrow> 'v VoxelGrid \<Rightarrow> voxel set \<Rightarrow> voxel list \<Rightarrow> (voxel list \<times> voxel set) option" where
  "dfs 0 g assigned current = None"
| "dfs (Suc depth) g assigned current =
     (if current \<in> assigned \<or> \<not> is_occupied g current then Some ([], assigned)
      else case dfs_neighbors depth g (insert current assigned) (get_neighbors current) of
             None \<Rightarrow> None
           | Some (cluster, assigned') \<Rightarrow> Some (current # cluster, assigned'))"
| "dfs_neighbors depth g assigned [] = Some ([], assigned)"
| "dfs_neighbors depth g assigned (neighbor # rest) =
     (case dfs depth g assigned neighbor of
        None \<Rightarrow> None
      | Some (c1, a1) \<Rightarrow>
          (case dfs_neighbors depth g a1 rest of
             None \<Rightarrow> None
           | Some (c2, a2) \<Rightarrow> Some (c1 @ c2, a2)))"

fun clusters_loop ::
  "nat \<Rightarrow> 'v VoxelGrid \<Rightarrow> voxel list list \<Rightarrow> voxel set \<Rightarrow> voxel list
     \<Rightarrow> voxel list list option" where
  "clusters_loop depth g clusters assigned [] = Some clusters"
| "clusters_loop depth g clusters assigned (voxel # rest) =
     (case dfs depth g assigned voxel of
        None \<Rightarrow> None
      | Some (cluster, assigned') \<Rightarrow>
          clusters_loop depth g
            (if cluster \<noteq> [] then clusters @ [cluster] else clusters) assigned' rest)"

definition get_clusters ::
  "nat \<Rightarrow> 'v VoxelGrid \<Rightarrow> voxel list option \<Rightarrow> voxel list list option" where
  "get_clusters depth g voxels =
     clusters_loop depth g [] {}
       (case voxels of None \<Rightarrow> occupied g | Some vs \<Rightarrow> vs)"

subsection \<open>Vertical intervals\<close>

type_synonym interval = "int \<times> int \<times> (int \<times> int)"

definition voxel_heights :: "'v VoxelGrid \<Rightarrow> ((int \<times> int) \<times> int set) list" where
  "voxel_heights g =
     fold (\<lambda>(i, j, k) d. AList.update_with_aux {} (i, j) (insert k) d) (occupied g) []"

text \<open>The inner loop over \<open>heights[1:]\<close> and the append that follows it.\<close>

fun runs :: "int \<Rightarrow> int \<Rightarrow> int \<Rightarrow> int \<Rightarrow> int list \<Rightarrow> interval list \<Rightarrow> interval list" where
  "runs i j start last' [] voxel_intervals = voxel_intervals @ [(i, j, (start, last'))]"
| "runs i j start last' (k # ks) voxel_intervals =
     (if k = last' + 1 then runs i j start k ks voxel_intervals
      else runs i j k k ks (voxel_intervals @ [(i, j, (start, last'))]))"

fun intervals_loop ::
  "((int \<times> int) \<times> int set) list \<Rightarrow> interval list \<Rightarrow> error + interval list" where
  "intervals_loop [] voxel_intervals = Inr voxel_intervals"
| "intervals_loop (((i, j), ks) # rest) voxel_intervals =
     (case sorted_list_of_set ks of
        [] \<Rightarrow> Inl IndexError
      | h # heights \<Rightarrow> intervals_loop rest (runs i j h h heights voxel_intervals))"

definition create_intervals :: "'v VoxelGrid \<Rightarrow> error + interval list" where
  "create_intervals g = intervals_loop (voxel_heights g) []"

subsection \<open>Height map\<close>

text \<open>
  \<open>project2d\<close> returns a Python set, whose iteration order is not fixed; the model lists
  its elements in the order of the dictionary \<open>tallest_voxel\<close>.
\<close>

definition tallest_voxel :: "'v VoxelGrid \<Rightarrow> ((int \<times> int) \<times> int) list" where
  "tallest_voxel g =
     fold (\<lambda>(i, j, k) d.
             AList.update (i, j)
               (max k (case map_of d (i, j) of None \<Rightarrow> k | Some t \<Rightarrow> t)) d)
          (occupied g) []"

definition project2d :: "'v VoxelGrid \<Rightarrow> voxel list" where
  "project2d g = map (\<lambda>((i, j), k). (i, j, k)) (tallest_voxel g)"

text \<open>A two-dimensional numpy array: its shape and its cells.\<close>

record array2 =
  shape :: "nat \<times> nat"
  cell :: "nat \<times> nat \<Rightarrow> real"

definition zeros :: "nat \<times> nat \<Rightarrow> array2" where
  "zeros s = \<lparr>shape = s, cell = (\<lambda>_. 0)\<rparr>"

text \<open>numpy indexing along one axis of length \<open>n\<close>: negative indices count from the end.\<close>

definition np_index :: "nat \<Rightarrow> int \<Rightarrow> nat option" where
  "np_index n i =
     (if 0 \<le> i \<and> i < int n then Some (nat i)
      else if - int n \<le> i \<and> i < 0 then Some (nat (i + int n))
      else None)"

definition locate :: "array2 \<Rightarrow> int \<times> int \<Rightarrow> (nat \<times> nat) option" where
  "locate a rc =
     (case (np_index (fst (shape a)) (fst rc), np_index (snd (shape a)) (snd rc)) of
        (Some r, Some c) \<Rightarrow> Some (r, c)
      | _ \<Rightarrow> None)"

text \<open>\<open>height_map[r, c] = max(height_map[r, c], scaled_z)\<close>.\<close>

definition paint :: "real \<Rightarrow> array2 \<Rightarrow> int \<times> int \<Rightarrow> error + array2" where
  "paint scaled_z height_map rc =
     (case locate height_map rc of
        None \<Rightarrow> Inl IndexError
      | Some p \<Rightarrow>
          Inr (height_map\<lparr>cell := (cell height_map)(p := max (cell height_map p) scaled_z)\<rparr>))"

text \<open>Modelled from the spec: \<open>clip\<close> of the utilities module clamps a value into a range.\<close>

definition clip :: "real \<Rightarrow> real \<Rightarrow> real \<Rightarrow> real" where
  "clip x lo hi = min (max lo x) hi"

text \<open>
  \<open>plane_lower\<close> is the position of the plane body (reported by the backend) moved by
  half of \<open>plane_size\<close> along x and y. A zero \<open>plane_size\<close> makes numpy divide by zero;
  the model is meant for a non-zero one.
\<close>

definition pixel_from_point :: "nat \<Rightarrow> nat \<Rightarrow> point \<Rightarrow> real \<Rightarrow> point \<Rightarrow> int \<times> int" where
  "pixel_from_point width height plane_point plane_size p =
     (case (p, plane_point) of
        ((x, y, z), (px, py, pz)) \<Rightarrow>
          (\<lfloor>real width * (x - (px - plane_size / 2)) / plane_size\<rfloor>,
           \<lfloor>real height * (y - (py - plane_size / 2)) / plane_size\<rfloor>))"

fun paint_all :: "real \<Rightarrow> nat \<Rightarrow> array2 \<Rightarrow> (int \<times> int) list \<Rightarrow> error + array2" where
  "paint_all scaled_z height height_map [] = Inr height_map"
| "paint_all scaled_z height height_map ((c, y) # rest) =
     (case paint scaled_z height_map (int height - y - 1, c) of
        Inl e \<Rightarrow> Inl e
      | Inr height_map' \<Rightarrow> paint_all scaled_z height height_map' rest)"

definition scaled_z :: "'v VoxelGrid \<Rightarrow> voxel \<Rightarrow> real" where
  "scaled_z g voxel = (clip (snd (snd (upper_from_voxel g voxel))) 0 2 - 0) / 2"

definition footprint ::
  "'v VoxelGrid \<Rightarrow> nat \<Rightarrow> nat \<Rightarrow> point \<Rightarrow> real \<Rightarrow> voxel \<Rightarrow> (int \<times> int) \<times> (int \<times> int)" where
  "footprint g width height plane_point plane_size voxel =
     (case aabb_from_voxel g voxel of
        (lo, hi) \<Rightarrow> (pixel_from_point width height plane_point plane_size lo,
                     pixel_from_point width height plane_point plane_size hi))"

text \<open>The body of the loop over the entries of \<open>project2d\<close>.\<close>

definition paint_voxel ::
  "'v VoxelGrid \<Rightarrow> nat \<Rightarrow> nat \<Rightarrow> point \<Rightarrow> real \<Rightarrow> voxel \<Rightarrow> array2 \<Rightarrow> error + array2" where
  "paint_voxel g width height plane_point plane_size voxel height_map =
     (case footprint g width height plane_point plane_size voxel of
        ((x1, y1), (x2, y2)) \<Rightarrow>
          if x1 < 0 \<or> int width \<le> x2 \<or> y1 < 0 \<or> int height \<le> y2 then Inr height_map
          else paint_all (scaled_z g voxel) height height_map
                 [(c, y). c \<leftarrow> [x1..x2], y \<leftarrow> [y1..y2]])"

fun height_loop ::
  "'v VoxelGrid \<Rightarrow> nat \<Rightarrow> nat \<Rightarrow> point \<Rightarrow> real \<Rightarrow> voxel list \<Rightarrow> array2 \<Rightarrow> error + array2" where
  "height_loop g width height plane_point plane_size [] height_map = Inr height_map"
| "height_loop g width height plane_point plane_size (voxel # rest) height_map =
     (case paint_voxel g width height plane_point plane_size voxel height_map of
        Inl e \<Rightarrow> Inl e
      | Inr height_map' \<Rightarrow> height_loop g width height plane_point plane_size rest height_map')"

definition create_height_map ::
  "'v VoxelGrid \<Rightarrow> point \<Rightarrow> real \<Rightarrow> nat \<Rightarrow> nat \<Rightarrow> error + array2" where
  "create_height_map g plane_point plane_size width height =
     height_loop g width height plane_point plane_size (project2d g) (zeros (width, height))"

subsection \<open>Notions used to state the properties\<close>

text \<open>
  The voxelized vertices of a box and the three coordinates of a voxel.
\<close>

definition vertex_voxels :: "'v VoxelGrid \<Rightarrow> point \<times> point \<Rightarrow> voxel list" where
  "vertex_voxels g aabb = map (voxel_from_point g) (get_aabb_vertices aabb)"

definition axis_i :: "voxel \<Rightarrow> int" where "axis_i v = fst v"
definition axis_j :: "voxel \<Rightarrow> int" where "axis_j v = fst (snd v)"
definition axis_k :: "voxel \<Rightarrow> int" where "axis_k v = snd (snd v)"

text \<open>
  Two voxels are face adjacent when they differ by one on exactly one axis. Occupied
  voxels are connected when a chain of face-adjacent occupied voxels joins them.
\<close>

definition face_adjacent :: "voxel \<Rightarrow> voxel \<Rightarrow> bool" where
  "face_adjacent u w =
     (case (u, w) of
        ((i, j, k), (i', j', k')) \<Rightarrow>
          (\<bar>i - i'\<bar> = 1 \<and> j = j' \<and> k = k') \<or>
          (i = i' \<and> \<bar>j - j'\<bar> = 1 \<and> k = k') \<or>
          (i = i' \<and> j = j' \<and> \<bar>k - k'\<bar> = 1))"

definition linked :: "'v VoxelGrid \<Rightarrow> voxel \<Rightarrow> voxel \<Rightarrow> bool" where
  "linked g u w \<longleftrightarrow> is_occupied g u \<and> is_occupied g w \<and> face_adjacent u w"

definition connected :: "'v VoxelGrid \<Rightarrow> voxel \<Rightarrow> voxel \<Rightarrow> bool" where
  "connected g = (linked g)\<^sup>*\<^sup>*"

text \<open>
  An index is inside when it is neither the least nor the greatest int64, and a grid is
  interior when every index of every key is inside.
\<close>

definition inside :: "int \<Rightarrow> bool" where
  "inside c \<longleftrightarrow> - (2 ^ 63) < c \<and> c < 2 ^ 63 - 1"

definition interior :: "'v VoxelGrid \<Rightarrow> bool" where
  "interior g =
     list_all (\<lambda>(i, j, k). inside i \<and> inside j \<and> inside k) (map fst (value_from_voxel g))"

text \<open>What one traversal has done when it returns, and what the outer loop maintains.\<close>

definition dfs_post ::
  "'v VoxelGrid \<Rightarrow> voxel set \<Rightarrow> voxel list \<Rightarrow> voxel list \<Rightarrow> voxel set \<Rightarrow> bool" where
  "dfs_post g A roots cl A' \<longleftrightarrow>
     A' = A \<union> set cl \<and> distinct cl \<and> set cl \<inter> A = {} \<and>
     (\<forall>v\<in>set cl. is_occupied g v \<and> (\<exists>r\<in>set roots. connected g r v)) \<and>
     (\<forall>v\<in>set cl. \<forall>n\<in>set (get_neighbors v). is_occupied g n \<longrightarrow> n \<in> A') \<and>
     (\<forall>r\<in>set roots. is_occupied g r \<longrightarrow> r \<in> A')"


definition clusters_inv :: "'v VoxelGrid \<Rightarrow> voxel set \<Rightarrow> voxel list list \<Rightarrow> bool" where
  "clusters_inv g A clusters \<longleftrightarrow>
     set (concat clusters) = A \<and> distinct (concat clusters) \<and> [] \<notin> set clusters \<and>
     (\<forall>v\<in>A. is_occupied g v) \<and>
     (\<forall>v\<in>A. \<forall>n\<in>set (get_neighbors v). is_occupied g n \<longrightarrow> n \<in> A) \<and>
     (\<forall>c\<in>set clusters. \<forall>u\<in>set c. set c = {v. connected g u v})"

text \<open>
  The runs of a strictly ascending list of heights as plain pairs, the runs of one set of
  heights, the occupied heights of a column, the voxels an interval covers, and the
  intervals of one column in the order in which they were emitted.
\<close>

fun spans :: "int \<Rightarrow> int \<Rightarrow> int list \<Rightarrow> (int \<times> int) list" where
  "spans start last' [] = [(start, last')]"
| "spans start last' (k # ks) =
     (if k = last' + 1 then spans start k ks else (start, last') # spans k k ks)"

definition col_spans :: "int set \<Rightarrow> (int \<times> int) list" where
  "col_spans s = (case sorted_list_of_set s of [] \<Rightarrow> [] | h # heights \<Rightarrow> spans h h heights)"

definition covers :: "interval \<Rightarrow> voxel \<Rightarrow> bool" where
  "covers iv v =
     (case (iv, v) of
        ((i, j, (a, b)), (i', j', k)) \<Rightarrow> i = i' \<and> j = j' \<and> a \<le> k \<and> k \<le> b)"

definition column :: "int \<Rightarrow> int \<Rightarrow> interval list \<Rightarrow> (int \<times> int) list" where
  "column i j ivs =
     map (\<lambda>(i', j', span). span) (filter (\<lambda>(i', j', span). i' = i \<and> j' = j) ivs)"

definition heights_at :: "'v VoxelGrid \<Rightarrow> int \<Rightarrow> int \<Rightarrow> int set" where
  "heights_at g i j = {k. is_occupied g (i, j, k)}"

definition intervals_of :: "((int \<times> int) \<times> int set) list \<Rightarrow> interval list" where
  "intervals_of d =
     concat (map (\<lambda>(c, s). map (\<lambda>iv. (fst c, snd c, iv)) (col_spans s)) d)"

definition hts :: "((int \<times> int) \<times> int set) list \<Rightarrow> int \<times> int \<Rightarrow> int set" where
  "hts d c = (case map_of d c of None \<Rightarrow> {} | Some s \<Rightarrow> s)"

text \<open>
  One pixel write and one loop round of \<open>create_height_map\<close> as steps on the outcome so
  far, an exception staying what it is.
\<close>

definition paint_step :: "real \<Rightarrow> nat \<Rightarrow> int \<times> int \<Rightarrow> error + array2 \<Rightarrow> error + array2" where
  "paint_step z height cy st =
     (case st of Inl e \<Rightarrow> Inl e
      | Inr height_map \<Rightarrow> paint z height_map (int height - snd cy - 1, fst cy))"

definition voxel_step ::
  "'v VoxelGrid \<Rightarrow> nat \<Rightarrow> nat \<Rightarrow> point \<Rightarrow> real \<Rightarrow> voxel \<Rightarrow> error + array2 \<Rightarrow> error + array2" where
  "voxel_step g width height plane_point plane_size voxel st =
     (case st of Inl e \<Rightarrow> Inl e
      | Inr height_map \<Rightarrow> paint_voxel g width height plane_point plane_size voxel height_map)"

text \<open>
  The tallest index recorded for a column that so far has entry \<open>m\<close>, after voxels with
  the indices \<open>K\<close> along z have been seen in it.
\<close>

definition tallest_after :: "int option \<Rightarrow> int set \<Rightarrow> int option" where
  "tallest_after m K =
     (if K = {} then m else Some (case m of None \<Rightarrow> Max K | Some t \<Rightarrow> max t (Max K)))"

text \<open>
  The cells of a \<open>width\<close> by \<open>height\<close> map that the loop round for \<open>voxel\<close> writes: none if
  its footprint leaves the image.
\<close>

definition painted ::
  "'v VoxelGrid \<Rightarrow> nat \<Rightarrow> nat \<Rightarrow> point \<Rightarrow> real \<Rightarrow> voxel \<Rightarrow> (nat \<times> nat) set" where
  "painted g width height plane_point plane_size voxel =
     (case footprint g width height plane_point plane_size voxel of
        ((x1, y1), (x2, y2)) \<Rightarrow>
          if x1 < 0 \<or> int width \<le> x2 \<or> y1 < 0 \<or> int height \<le> y2 then {}
          else set (List.map_filter
                      (\<lambda>(c, y). locate (zeros (width, height)) (int height - y - 1, c))
                      [(c, y). c \<leftarrow> [x1..x2], y \<leftarrow> [y1..y2]]))"

subsection \<open>Sample grids\<close>

text \<open>The default factory is \<open>bool\<close>, whose call returns \<open>False\<close>.\<close>

definition unit_grid :: "bool VoxelGrid" where
  "unit_grid = init (1, 1, 1) False unit_pose"

definition grid_of :: "voxel list \<Rightarrow> bool VoxelGrid" where
  "grid_of vs = fold (\<lambda>voxel g. fst (set_occupied g voxel)) vs unit_grid"

text \<open>
  A grid that the public methods build and whose cache still lists a voxel that has left
  the dictionary: two voxels are occupied, the first is dropped with \<open>remove_value\<close>, and
  a third is stored with \<open>set_value\<close>.
\<close>

definition stale_grid :: "bool VoxelGrid" where
  "stale_grid =
     set_value (remove_value (grid_of [(0, 0, 0), (1, 0, 0)]) (0, 0, 0)) (2, 0, 0) False"

text \<open>A grid with cells of height 1/5, so that tops at 3/5 and 7/5 scale to 0.3 and 0.7.\<close>

definition fine_grid :: "bool VoxelGrid" where
  "fine_grid = init (1, 1, 1 / 5) False unit_pose"

text \<open>
  The same grid with two occupied columns: voxels 1 and 2 over the cell (0, 0), voxels 3
  and 6 over the cell (1, 0).
\<close>

definition two_columns :: "bool VoxelGrid" where
  "two_columns =
     fold (\<lambda>voxel g. fst (set_occupied g voxel)) [(1, 0, 6), (0, 0, 2), (0, 0, 1), (1, 0, 3)]
       fine_grid"

text \<open>
  A grid with unequal resolutions, and the unit grid under a pose that moves it by 10
  along x.
\<close>

definition coarse_grid :: "bool VoxelGrid" where
  "coarse_grid = init (2, 4, 1 / 2) False unit_pose"

definition shifted_grid :: "bool VoxelGrid" where
  "shifted_grid =
     init (1, 1, 1) False
       \<lparr>tform_point = (\<lambda>(x, y, z). (x + 10, y, z)),
        tform_point_inverse = (\<lambda>(x, y, z). (x - 10, y, z))\<rparr>"

section \<open>Lookup and occupation\<close>

lemma contains_keys: "contains g v \<longleftrightarrow> v \<in> fst ` set (value_from_voxel g)"
  by (simp add: contains_def map_of_eq_None_iff)

lemma center_update [simp]:
  "center_from_voxel (g\<lparr>value_from_voxel := m\<rparr>) = center_from_voxel g"
  "center_from_voxel (g\<lparr>occupied_points := ps\<rparr>) = center_from_voxel g"
  "center_from_voxel (g\<lparr>occupied_voxel_points := vs\<rparr>) = center_from_voxel g"
  by (simp_all add: fun_eq_iff center_from_voxel_def lower_from_voxel_def)

lemma update_fresh: "k \<notin> fst ` set al \<Longrightarrow> AList.update k x al = al @ [(k, x)]"
  by (induction al) auto

text \<open>
  C8. \<open>get_value\<close> fails (the assertion guarding the lookup is violated) for every voxel
  that is not a key of the dictionary, and returns the stored value for every key.
\<close>

theorem get_value_spec:
  "(\<not> contains g v \<longrightarrow> get_value g v = Inl AssertionError) \<and>
   (contains g v \<longrightarrow> (\<exists>x. map_of (value_from_voxel g) v = Some x \<and> get_value g v = Inr x))"
  by (auto simp: get_value_def contains_def)


text \<open>
  C8 at work: the empty grid has no value for the origin, and after occupying it the
  default value is returned.
\<close>

theorem get_value_spec_witness:
  "get_value unit_grid (0, 0, 0) = Inl AssertionError \<and>
   get_value (grid_of [(0, 0, 0)]) (0, 0, 0) = Inr False"
proof -
  have a: "\<not> contains unit_grid (0, 0, 0)" by code_simp
  have b: "contains (grid_of [(0, 0, 0)]) (0, 0, 0)" by code_simp
  have m: "map_of (value_from_voxel (grid_of [(0, 0, 0)])) (0, 0, 0) = Some False"
    by code_simp
  from get_value_spec[of unit_grid "(0, 0, 0)"] a
  have "get_value unit_grid (0, 0, 0) = Inl AssertionError" by blast
  moreover from get_value_spec[of "grid_of [(0, 0, 0)]" "(0, 0, 0)"] b m
  have "get_value (grid_of [(0, 0, 0)]) (0, 0, 0) = Inr False" by auto
  ultimately show ?thesis by blast
qed

text \<open>
  C5, as the code has it. On an unoccupied voxel \<open>set_occupied\<close> stores the default
  value under the new key, appends \<open>center_from_voxel\<close> of the voxel and the voxel to the
  two cache sequences and returns true; on an occupied voxel it returns false and changes
  nothing; so a second call always returns false and leaves the grid of the first call
  as it is. The centre appended is the one of the grid frame, index plus one half times
  the resolution on each axis, with no pose applied: (3, -6, 7/4) for the voxel
  (1, -2, 3) at resolutions (2, 4, 1/2), and (1/2, 1/2, 1/2) for the origin of the unit
  grid moved by 10 along x. It is the world centre when the pose is the unit pose.
\<close>

theorem set_occupied_twice:
  "(\<not> contains g v \<longrightarrow>
      set_occupied g v =
        (g\<lparr>value_from_voxel := value_from_voxel g @ [(v, default g)],
           occupied_points := occupied_points g @ [center_from_voxel g v],
           occupied_voxel_points := occupied_voxel_points g @ [v]\<rparr>, True)) \<and>
   (contains g v \<longrightarrow> set_occupied g v = (g, False)) \<and>
   set_occupied (fst (set_occupied g v)) v = (fst (set_occupied g v), False) \<and>
   (world_from_grid g = unit_pose \<longrightarrow>
      to_world g (center_from_voxel g v) = center_from_voxel g v) \<and>
   occupied_points (fst (set_occupied coarse_grid (1, - 2, 3))) = [(3, - 6, 7 / 4)] \<and>
   occupied_points (fst (set_occupied shifted_grid (0, 0, 0))) = [(1 / 2, 1 / 2, 1 / 2)]"
proof (intro conjI)
  show "\<not> contains g v \<longrightarrow>
      set_occupied g v =
        (g\<lparr>value_from_voxel := value_from_voxel g @ [(v, default g)],
           occupied_points := occupied_points g @ [center_from_voxel g v],
           occupied_voxel_points := occupied_voxel_points g @ [v]\<rparr>, True)"
    by (auto simp: set_occupied_def set_value_def Let_def contains_keys update_fresh)
  show "contains g v \<longrightarrow> set_occupied g v = (g, False)"
    by (simp add: set_occupied_def)
  show "set_occupied (fst (set_occupied g v)) v = (fst (set_occupied g v), False)"
    by (auto simp: set_occupied_def set_value_def Let_def contains_keys update_fresh)
  show "world_from_grid g = unit_pose \<longrightarrow>
      to_world g (center_from_voxel g v) = center_from_voxel g v"
    by (simp add: to_world_def unit_pose_def)
  show "occupied_points (fst (set_occupied coarse_grid (1, - 2, 3))) = [(3, - 6, 7 / 4)]"
    by code_simp
  show "occupied_points (fst (set_occupied shifted_grid (0, 0, 0))) = [(1 / 2, 1 / 2, 1 / 2)]"
    by code_simp
qed

theorem set_occupied_twice_witness:
  "snd (set_occupied unit_grid (0, 0, 0)) = True \<and>
   occupied_voxel_points (fst (set_occupied unit_grid (0, 0, 0))) = [(0, 0, 0)] \<and>
   set_occupied (grid_of [(0, 0, 0)]) (0, 0, 0) = (grid_of [(0, 0, 0)], False) \<and>
   to_world unit_grid (center_from_voxel unit_grid (0, 0, 0)) =
     center_from_voxel unit_grid (0, 0, 0)"
proof -
  have a: "\<not> contains unit_grid (0, 0, 0)" by code_simp
  have b: "contains (grid_of [(0, 0, 0)]) (0, 0, 0)" by code_simp
  have e: "occupied_voxel_points unit_grid = []" by code_simp
  have u: "world_from_grid unit_grid = unit_pose" by (simp add: unit_grid_def init_def)
  from set_occupied_twice[of unit_grid "(0, 0, 0)"] a
  have "set_occupied unit_grid (0, 0, 0) =
        (unit_grid\<lparr>value_from_voxel := value_from_voxel unit_grid @ [((0, 0, 0), default unit_grid)],
           occupied_points := occupied_points unit_grid @ [center_from_voxel unit_grid (0, 0, 0)],
           occupied_voxel_points := occupied_voxel_points unit_grid @ [(0, 0, 0)]\<rparr>, True)"
    by blast
  with e have "snd (set_occupied unit_grid (0, 0, 0)) = True \<and>
    occupied_voxel_points (fst (set_occupied unit_grid (0, 0, 0))) = [(0, 0, 0)]"
    by simp
  moreover from set_occupied_twice[of "grid_of [(0, 0, 0)]" "(0, 0, 0)"] b
  have "set_occupied (grid_of [(0, 0, 0)]) (0, 0, 0) = (grid_of [(0, 0, 0)], False)"
    by blast
  moreover from set_occupied_twice[of unit_grid "(0, 0, 0)"] u
  have "to_world unit_grid (center_from_voxel unit_grid (0, 0, 0)) =
        center_from_voxel unit_grid (0, 0, 0)"
    by blast
  ultimately show ?thesis by blast
qed

text \<open>
  The claim C5 as it is written fails: on the unit grid whose pose moves it by 10 along
  x, the origin is unoccupied and its world centre, as \<open>draw_voxel_centers\<close> computes it,
  is (21/2, 1/2, 1/2), while \<open>set_occupied\<close> appends (1/2, 1/2, 1/2).
\<close>

theorem set_occupied_twice_counterexample:
  "\<not> contains shifted_grid (0, 0, 0) \<and>
   to_world shifted_grid (center_from_voxel shifted_grid (0, 0, 0)) = (21 / 2, 1 / 2, 1 / 2) \<and>
   occupied_points (fst (set_occupied shifted_grid (0, 0, 0))) = [(1 / 2, 1 / 2, 1 / 2)]"
  by code_simp

section \<open>The cache and the dictionary\<close>

lemma list_index_Some:
  "list_index ys c = Some i \<Longrightarrow> i < length ys \<and> ys ! i = c \<and> (\<forall>j<i. ys ! j \<noteq> c)"
proof (induction ys arbitrary: i)
  case Nil
  then show ?case by simp
next
  case (Cons y ys)
  show ?case
  proof (cases "y = c")
    case True
    with Cons.prems show ?thesis by simp
  next
    case False
    with Cons.prems obtain k where k: "list_index ys c = Some k" "i = Suc k"
      by auto
    from Cons.IH[OF k(1)] False k(2) show ?thesis
      by (auto simp: nth_Cons split: nat.splits)
  qed
qed

lemma list_index_member: "c \<in> set ys \<Longrightarrow> \<exists>i. list_index ys c = Some i"
  by (induction ys) auto

lemma list_index_append_fresh:
  "c \<notin> set ys \<Longrightarrow> list_index (ys @ [c]) c = Some (length ys)"
  by (induction ys) auto

lemma remove1_first:
  "list_index (map f vs) c = Some i \<Longrightarrow>
   remove1 (map f vs ! i) (map f vs) = map f (remove1 (vs ! i) vs)"
proof (induction vs arbitrary: i)
  case Nil
  then show ?case by simp
next
  case (Cons x xs)
  show ?case
  proof (cases "f x = c")
    case True
    with Cons.prems show ?thesis by simp
  next
    case False
    with Cons.prems obtain k where k: "list_index (map f xs) c = Some k" "i = Suc k"
      by auto
    from list_index_Some[OF k(1)] have kk: "k < length xs" "f (xs ! k) = c"
      by auto
    with False have "x \<noteq> xs ! k" by auto
    with Cons.IH[OF k(1)] k(2) kk False show ?thesis
      by simp
  qed
qed

lemma delete_distinct_keys:
  "distinct (map fst al) \<Longrightarrow> k \<in> fst ` set al \<Longrightarrow>
   mset (map f (map fst (AList.delete k al))) = mset (map f (map fst al)) - {#f k#}"
proof (induction al)
  case Nil
  then show ?case by simp
next
  case (Cons p ps)
  show ?case
  proof (cases "fst p = k")
    case True
    with Cons.prems have "k \<notin> fst ` set ps" by auto
    then have "AList.delete k ps = ps" by simp
    with True show ?thesis by simp
  next
    case False
    with Cons.prems have in_ps: "k \<in> fst ` set ps" and "distinct (map fst ps)" by auto
    then have ih: "mset (map f (map fst (AList.delete k ps))) = mset (map f (map fst ps)) - {#f k#}"
      using Cons.IH by blast
    from in_ps have "f k \<in># mset (map f (map fst ps))" by auto
    with ih False show ?thesis by simp
  qed
qed

lemma lockstep_init: "lockstep (init res d wfg)"
  by (simp add: lockstep_def init_def)

lemma lockstep_set_occupied: "lockstep g \<Longrightarrow> lockstep (fst (set_occupied g v))"
  by (auto simp: lockstep_def set_occupied_def set_value_def Let_def contains_keys
      update_fresh)


lemma lockstep_center_cached:
  assumes d: "distinct (map fst (value_from_voxel g))" and pv: "occupied_points g = map (center_from_voxel g) (occupied_voxel_points g)"
    and ms: "mset (occupied_points g) = mset (map (center_from_voxel g) (map fst (value_from_voxel g)))"
    and vk: "v \<in> fst ` set (value_from_voxel g)"
  shows "center_from_voxel g v \<in> set (occupied_points g)"
proof -
  from vk have "center_from_voxel g v \<in># mset (map (center_from_voxel g) (map fst (value_from_voxel g)))" by auto
  with ms have "center_from_voxel g v \<in># mset (occupied_points g)" by simp
  then show ?thesis by simp
qed

lemma cached_index:
  assumes  pv: "occupied_points g = map (center_from_voxel g) (occupied_voxel_points g)"
    and idx: "list_index (occupied_points g) (center_from_voxel g v) = Some idx"
  shows "idx < length (occupied_voxel_points g)" "occupied_points g ! idx = center_from_voxel g v"
  using list_index_Some[OF idx] pv by auto

lemma cached_remove1:
  assumes  pv: "occupied_points g = map (center_from_voxel g) (occupied_voxel_points g)"
    and idx: "list_index (occupied_points g) (center_from_voxel g v) = Some idx"
  shows "remove1 (occupied_points g ! idx) (occupied_points g) = map (center_from_voxel g) (remove1 (occupied_voxel_points g ! idx) (occupied_voxel_points g))"
  using idx pv remove1_first[of "center_from_voxel g" "occupied_voxel_points g" "center_from_voxel g v" idx] by simp

lemma set_free_occupied:
  assumes "contains g v" and idx: "list_index (occupied_points g) (center_from_voxel g v) = Some idx"
   and "idx < length (occupied_voxel_points g)"
  shows "set_free g v = Inr (g\<lparr>value_from_voxel := AList.delete v (value_from_voxel g),
               occupied_points := remove1 (occupied_points g ! idx) (occupied_points g),
               occupied_voxel_points := remove1 (occupied_voxel_points g ! idx) (occupied_voxel_points g)\<rparr>, True)"
  using assms by (simp add: set_free_def remove_value_def Let_def)

lemma cached_mset_remove1:
  assumes d: "distinct (map fst (value_from_voxel g))"
    and ms: "mset (occupied_points g) = mset (map (center_from_voxel g) (map fst (value_from_voxel g)))"
    and vk: "v \<in> fst ` set (value_from_voxel g)"
    and pc: "occupied_points g ! idx = center_from_voxel g v"
  shows "mset (remove1 (occupied_points g ! idx) (occupied_points g)) = mset (map (center_from_voxel g) (map fst (AList.delete v (value_from_voxel g))))"
    using ms pc delete_distinct_keys[OF d vk, of "center_from_voxel g"] by simp

lemma lockstep_set_free:
  assumes "lockstep g"
  shows "\<exists>g'. set_free g v = Inr (g', contains g v) \<and> lockstep g'"
proof (cases "contains g v")
  case False
  with assms have "set_free g v = Inr (g, contains g v) \<and> lockstep g"
    by (simp add: set_free_def)
  then show ?thesis by blast
next
  case True
  from assms have d: "distinct (map fst (value_from_voxel g))"
    and pv: "occupied_points g = map (center_from_voxel g) (occupied_voxel_points g)"
    and ms: "mset (occupied_points g) =
             mset (map (center_from_voxel g) (map fst (value_from_voxel g)))"
    unfolding lockstep_def by blast+
  from True have vk: "v \<in> fst ` set (value_from_voxel g)" by (simp add: contains_keys)
  obtain idx where idx: "list_index (occupied_points g) (center_from_voxel g v) = Some idx"
    using list_index_member[OF lockstep_center_cached[OF d pv ms vk]] by blast
  note il = cached_index[OF pv idx]
  define g' where "g' = g\<lparr>value_from_voxel := AList.delete v (value_from_voxel g),
               occupied_points := remove1 (occupied_points g ! idx) (occupied_points g),
               occupied_voxel_points :=
                 remove1 (occupied_voxel_points g ! idx) (occupied_voxel_points g)\<rparr>"
  have sf: "set_free g v = Inr (g', True)"
    unfolding g'_def by (rule set_free_occupied[OF True idx il(1)])
  have c': "center_from_voxel g' = center_from_voxel g"
    by (simp add: g'_def)
  have "lockstep g'"
    unfolding lockstep_def c'
  proof (intro conjI)
    show "distinct (map fst (value_from_voxel g'))"
      using distinct_delete[OF d] by (simp add: g'_def)
    show "occupied_points g' = map (center_from_voxel g) (occupied_voxel_points g')"
      using cached_remove1[OF pv idx] by (simp add: g'_def)
    show "mset (occupied_points g') =
          mset (map (center_from_voxel g) (map fst (value_from_voxel g')))"
      using cached_mset_remove1[OF d ms vk il(2)] by (simp add: g'_def del: mset_remove1 mset_map)
  qed
  with sf True have "set_free g v = Inr (g', contains g v) \<and> lockstep g'" by simp
  then show ?thesis by blast
qed
lemma lockstep_lengths:
  assumes "lockstep g"
  shows "length (occupied_points g) = length (occupied_voxel_points g)"
    and "length (occupied_voxel_points g) = len g"
    and "len g = card (fst ` set (value_from_voxel g))"
    and "\<forall>i<length (occupied_voxel_points g).
           occupied_points g ! i = center_from_voxel g (occupied_voxel_points g ! i)"
proof -
  from assms have d: "distinct (map fst (value_from_voxel g))"
    and pv: "occupied_points g = map (center_from_voxel g) (occupied_voxel_points g)"
    and ms: "mset (occupied_points g) = mset (map (center_from_voxel g) (map fst (value_from_voxel g)))"
    unfolding lockstep_def by blast+
  from pv show l1: "length (occupied_points g) = length (occupied_voxel_points g)" by simp
  from ms have "size (mset (occupied_points g)) = size (mset (map (center_from_voxel g) (map fst (value_from_voxel g))))"
    by simp
  with l1 show "length (occupied_voxel_points g) = len g" by (simp add: len_def)
  from d show "len g = card (fst ` set (value_from_voxel g))"
    using distinct_card[of "map fst (value_from_voxel g)"] by (simp add: len_def)
  from pv show "\<forall>i<length (occupied_voxel_points g).
           occupied_points g ! i = center_from_voxel g (occupied_voxel_points g ! i)"
    by simp
qed


lemma lockstep_fold_set_occupied:
  "lockstep g \<Longrightarrow> lockstep (fold (\<lambda>voxel h. fst (set_occupied h voxel)) vs g)"
  by (induction vs arbitrary: g) (simp_all add: lockstep_set_occupied)

lemma lockstep_add_loop: "lockstep g \<Longrightarrow> lockstep (add_loop chk g cv)"
  by (induction chk g cv rule: add_loop.induct) (simp_all add: lockstep_set_occupied)

lemma lockstep_remove_loop:
  "lockstep g \<Longrightarrow> \<exists>g'. remove_loop chk g cv = Inr g' \<and> lockstep g'"
proof (induction cv arbitrary: g)
  case Nil
  then show ?case by simp
next
  case (Cons p cv)
  obtain voxel pairs where p: "p = (voxel, pairs)" by (cases p)
  show ?case
  proof (cases "chk voxel pairs")
    case False
    with Cons p show ?thesis by simp
  next
    case True
    from lockstep_set_free[OF Cons.prems, of voxel]
    obtain g1 where g1: "set_free g voxel = Inr (g1, contains g voxel)" "lockstep g1"
      by blast
    from Cons.IH[OF g1(2)] g1(1) True p show ?thesis by simp
  qed
qed

lemma aabb_from_points_vertices:
  "aabb_from_points (map f (get_aabb_vertices aabb)) \<noteq> Inl e"
  by (simp add: get_aabb_vertices_def aabb_from_points_def split: prod.splits)

lemma voxels_from_aabb_returns: "\<exists>vs. voxels_from_aabb g aabb = Inr vs"
  using aabb_from_points_vertices[of "voxel_from_point g" aabb]
  by (cases "aabb_from_points (map (voxel_from_point g) (get_aabb_vertices aabb))")
     (auto simp: voxels_from_aabb_def split: prod.splits)

lemma get_affected_returns: "\<exists>cv. get_affected g links occ acc = Inr cv"
proof (induction links arbitrary: acc)
  case Nil
  then show ?case by simp
next
  case (Cons l links)
  obtain pair aabb where l: "l = (pair, aabb)" by (cases l)
  obtain vs where "voxels_from_aabb g aabb = Inr vs"
    using voxels_from_aabb_returns by blast
  with Cons.IH l show ?case by simp
qed

lemma lockstep_add_aabb: "lockstep g \<Longrightarrow> \<exists>g'. add_aabb g aabb = Inr g' \<and> lockstep g'"
  using voxels_from_aabb_returns[of g aabb]
  by (auto simp: add_aabb_def lockstep_fold_set_occupied)

lemma lockstep_add_bodies:
  "lockstep g \<Longrightarrow> \<exists>g'. add_bodies chk g links = Inr g' \<and> lockstep g'"
  using get_affected_returns[of g links False "[]"]
  by (auto simp: add_bodies_def lockstep_add_loop)

lemma lockstep_remove_bodies:
  "lockstep g \<Longrightarrow> \<exists>g'. remove_bodies chk g links = Inr g' \<and> lockstep g'"
  using get_affected_returns[of g links True "[]"]
  by (auto simp: remove_bodies_def lockstep_remove_loop)

lemma lockstep_set_value:
  assumes "lockstep g" and "contains g v"
  shows "lockstep (set_value g v x)"
proof -
  from assms(2) have k: "map fst (value_from_voxel (set_value g v x)) = map fst (value_from_voxel g)"
    by (simp add: set_value_def update_keys contains_keys)
  have c: "center_from_voxel (set_value g v x) = center_from_voxel g"
    "occupied_points (set_value g v x) = occupied_points g"
    "occupied_voxel_points (set_value g v x) = occupied_voxel_points g"
    by (simp_all add: set_value_def)
  show ?thesis
    unfolding lockstep_def k c using assms(1) unfolding lockstep_def .
qed

lemma lockstep_remove_value: "\<not> contains g v \<Longrightarrow> remove_value g v = g"
  by (simp add: remove_value_def)

lemma remove1_append_fresh: "x \<notin> set xs \<Longrightarrow> remove1 x (xs @ [x]) = xs"
  by (induction xs) auto

text \<open>
  C1, as the code has it. The freshly built grid is in lockstep. From a grid in lockstep,
  the two cache sequences have the same length, that length is the number of keys, and
  the centre at each index is the centre of the voxel at that index; \<open>set_occupied\<close>,
  \<open>set_free\<close>, \<open>add_point\<close>, \<open>add_aabb\<close>, \<open>add_bodies\<close> and \<open>remove_bodies\<close> return and
  leave a grid in lockstep, and so do \<open>set_value\<close> on an occupied voxel and
  \<open>remove_value\<close> on an unoccupied one. \<open>set_value\<close> and \<open>remove_value\<close> never touch
  the two cache sequences.
\<close>

theorem cache_lockstep:
  "lockstep (init res d wfg) \<and>
   (lockstep g \<longrightarrow>
      length (occupied_points g) = length (occupied_voxel_points g) \<and>
      length (occupied_voxel_points g) = card (fst ` set (value_from_voxel g)) \<and>
      (\<forall>i<length (occupied_voxel_points g).
         occupied_points g ! i = center_from_voxel g (occupied_voxel_points g ! i)) \<and>
      lockstep (fst (set_occupied g v)) \<and>
      (\<exists>g'. set_free g v = Inr (g', contains g v) \<and> lockstep g') \<and>
      lockstep (add_point g p) \<and>
      (\<exists>g'. add_aabb g aabb = Inr g' \<and> lockstep g') \<and>
      (\<exists>g'. add_bodies check g links = Inr g' \<and> lockstep g') \<and>
      (\<exists>g'. remove_bodies check g links = Inr g' \<and> lockstep g') \<and>
      (contains g v \<longrightarrow> lockstep (set_value g v x)) \<and>
      (\<not> contains g v \<longrightarrow> lockstep (remove_value g v))) \<and>
   occupied_points (set_value g v x) = occupied_points g \<and>
   occupied_voxel_points (set_value g v x) = occupied_voxel_points g \<and>
   occupied_points (remove_value g v) = occupied_points g \<and>
   occupied_voxel_points (remove_value g v) = occupied_voxel_points g"
proof (intro conjI impI)
  show "lockstep (init res d wfg)" by (rule lockstep_init)
next
  show "occupied_points (set_value g v x) = occupied_points g"
    and "occupied_voxel_points (set_value g v x) = occupied_voxel_points g"
    and "occupied_points (remove_value g v) = occupied_points g"
    and "occupied_voxel_points (remove_value g v) = occupied_voxel_points g"
    by (simp_all add: set_value_def remove_value_def)
next
  assume l: "lockstep g"
  from lockstep_lengths[OF l]
  show "length (occupied_points g) = length (occupied_voxel_points g)"
    and "length (occupied_voxel_points g) = card (fst ` set (value_from_voxel g))"
    and "\<forall>i<length (occupied_voxel_points g).
           occupied_points g ! i = center_from_voxel g (occupied_voxel_points g ! i)"
    by simp_all
  show "lockstep (fst (set_occupied g v))" by (rule lockstep_set_occupied[OF l])
  show "\<exists>g'. set_free g v = Inr (g', contains g v) \<and> lockstep g'"
    by (rule lockstep_set_free[OF l])
  show "lockstep (add_point g p)"
    unfolding add_point_def by (rule lockstep_set_occupied[OF l])
  show "\<exists>g'. add_aabb g aabb = Inr g' \<and> lockstep g'" by (rule lockstep_add_aabb[OF l])
  show "\<exists>g'. add_bodies check g links = Inr g' \<and> lockstep g'"
    by (rule lockstep_add_bodies[OF l])
  show "\<exists>g'. remove_bodies check g links = Inr g' \<and> lockstep g'"
    by (rule lockstep_remove_bodies[OF l])
next
  assume "lockstep g" and "contains g v"
  then show "lockstep (set_value g v x)" by (rule lockstep_set_value)
next
  assume "lockstep g" and "\<not> contains g v"
  then show "lockstep (remove_value g v)" by (simp add: lockstep_remove_value)
qed

theorem cache_lockstep_witness:
  "lockstep (grid_of [(0, 0, 0)]) \<and>
   length (occupied_points (grid_of [(0, 0, 0)])) = 1 \<and>
   card (fst ` set (value_from_voxel (grid_of [(0, 0, 0)]))) = 1 \<and>
   lockstep (fst (set_occupied (grid_of [(0, 0, 0)]) (1, 0, 0))) \<and>
   (\<exists>g'. set_free (grid_of [(0, 0, 0)]) (0, 0, 0) = Inr (g', True) \<and> lockstep g')"
proof -
  have l: "lockstep (grid_of [(0, 0, 0)])" by code_simp
  have c: "contains (grid_of [(0, 0, 0)]) (0, 0, 0)" by code_simp
  have n: "length (occupied_voxel_points (grid_of [(0, 0, 0)])) = 1" by code_simp
  from cache_lockstep[of "(1, 1, 1)" False unit_pose "grid_of [(0, 0, 0)]" "(0, 0, 0)"
      "(0, 0, 0)" "((0, 0, 0), (0, 0, 0))" "\<lambda>_ (_ :: unit list). True" "[]" False] l c n
  have "length (occupied_points (grid_of [(0, 0, 0)])) = 1"
    and "card (fst ` set (value_from_voxel (grid_of [(0, 0, 0)]))) = 1"
    and "\<exists>g'. set_free (grid_of [(0, 0, 0)]) (0, 0, 0) = Inr (g', True) \<and> lockstep g'"
    by simp_all
  moreover from cache_lockstep[of "(1, 1, 1)" False unit_pose "grid_of [(0, 0, 0)]" "(1, 0, 0)"
      "(0, 0, 0)" "((0, 0, 0), (0, 0, 0))" "\<lambda>_ (_ :: unit list). True" "[]" False] l
  have "lockstep (fst (set_occupied (grid_of [(0, 0, 0)]) (1, 0, 0)))" by blast
  ultimately show ?thesis using l by blast
qed

text \<open>
  The claim C1 as it is written fails: \<open>set_value\<close> on a new voxel and \<open>remove_value\<close> on
  an occupied one change the dictionary alone, and \<open>copy\<close> copies the dictionary alone.
\<close>

theorem cache_lockstep_counterexample:
  "len (set_value unit_grid (0, 0, 0) True) = 1 \<and>
   length (occupied_points (set_value unit_grid (0, 0, 0) True)) = 0 \<and>
   length (occupied_voxel_points (set_value unit_grid (0, 0, 0) True)) = 0 \<and>
   len (remove_value (grid_of [(0, 0, 0)]) (0, 0, 0)) = 0 \<and>
   length (occupied_points (remove_value (grid_of [(0, 0, 0)]) (0, 0, 0))) = 1 \<and>
   len (copy (grid_of [(0, 0, 0)])) = 1 \<and>
   length (occupied_points (copy (grid_of [(0, 0, 0)]))) = 0"
  by code_simp

text \<open>
  C10, as the code has it. On a grid whose two cache sequences have the same length and
  hold neither the centre of the voxel nor the voxel itself, occupying an unoccupied
  voxel and freeing it again returns true and gives back the very same grid: dictionary
  and both cache sequences. Nothing is assumed about how centres are computed.
\<close>

theorem set_occupied_set_free_restores:
  assumes "\<not> contains g v"
    and "length (occupied_points g) = length (occupied_voxel_points g)"
    and "center_from_voxel g v \<notin> set (occupied_points g)"
    and "v \<notin> set (occupied_voxel_points g)"
  shows "set_free (fst (set_occupied g v)) v = Inr (g, True)"
proof -
  let ?c = "center_from_voxel g v"
  define g1 where "g1 = g\<lparr>value_from_voxel := value_from_voxel g @ [(v, default g)],
      occupied_points := occupied_points g @ [?c],
      occupied_voxel_points := occupied_voxel_points g @ [v]\<rparr>"
  from assms(1) have nk: "v \<notin> fst ` set (value_from_voxel g)" by (simp add: contains_keys)
  have so: "fst (set_occupied g v) = g1"
    using assms(1) nk by (simp add: set_occupied_def set_value_def Let_def update_fresh g1_def)
  have occ: "contains g1 v" by (simp add: contains_keys g1_def)
  note len = assms(2)
  have idx: "list_index (occupied_points g1) (center_from_voxel g1 v) =
             Some (length (occupied_points g))"
    using list_index_append_fresh[OF assms(3)] by (simp add: g1_def)
  have il: "length (occupied_points g) < length (occupied_voxel_points g1)"
    using len by (simp add: g1_def)
  have "set_free g1 v =
        Inr (g1\<lparr>value_from_voxel := AList.delete v (value_from_voxel g1),
               occupied_points :=
                 remove1 (occupied_points g1 ! length (occupied_points g)) (occupied_points g1),
               occupied_voxel_points :=
                 remove1 (occupied_voxel_points g1 ! length (occupied_points g))
                         (occupied_voxel_points g1)\<rparr>, True)"
    by (rule set_free_occupied[OF occ idx il])
  moreover have "AList.delete v (value_from_voxel g1) = value_from_voxel g"
    using nk AList.delete_id[OF nk] by (simp add: g1_def AList.delete_eq)
  moreover have "remove1 (occupied_points g1 ! length (occupied_points g)) (occupied_points g1) =
                 occupied_points g"
    using assms(3) by (simp add: g1_def remove1_append_fresh)
  moreover have "remove1 (occupied_voxel_points g1 ! length (occupied_points g))
                         (occupied_voxel_points g1) = occupied_voxel_points g"
    using assms(4) len by (simp add: g1_def remove1_append_fresh)
  ultimately have "set_free g1 v = Inr (g, True)"
    by (simp add: g1_def)
  with so show ?thesis by simp
qed

theorem set_occupied_set_free_restores_witness:
  "set_free (fst (set_occupied (grid_of [(0, 0, 0)]) (1, 0, 0))) (1, 0, 0) =
   Inr (grid_of [(0, 0, 0)], True)"
proof -
  have c: "\<not> contains (grid_of [(0, 0, 0)]) (1, 0, 0)" by code_simp
  have l: "length (occupied_points (grid_of [(0, 0, 0)])) =
           length (occupied_voxel_points (grid_of [(0, 0, 0)]))" by code_simp
  have p: "center_from_voxel (grid_of [(0, 0, 0)]) (1, 0, 0) \<notin>
           set (occupied_points (grid_of [(0, 0, 0)]))" by code_simp
  have v: "(1, 0, 0) \<notin> set (occupied_voxel_points (grid_of [(0, 0, 0)]))" by code_simp
  show ?thesis by (rule set_occupied_set_free_restores[OF c l p v])
qed

text \<open>
  The claim C10 as it is written fails on a grid whose cache holds a stale entry: the
  resolutions are positive and the origin is unoccupied, the three lengths agree and the
  centres sit at the indices of their voxels, yet occupying and freeing the origin leaves
  both cache sequences in another order, because \<open>set_free\<close> finds the stale centre first.
\<close>

theorem set_occupied_set_free_restores_counterexample:
  "positive_resolutions stale_grid \<and> \<not> contains stale_grid (0, 0, 0) \<and>
   map fst (value_from_voxel stale_grid) = [(1, 0, 0), (2, 0, 0)] \<and>
   occupied_points stale_grid = [(1 / 2, 1 / 2, 1 / 2), (3 / 2, 1 / 2, 1 / 2)] \<and>
   occupied_voxel_points stale_grid = [(0, 0, 0), (1, 0, 0)] \<and>
   map_sum id
     (\<lambda>r. (map fst (value_from_voxel (fst r)), occupied_points (fst r),
           occupied_voxel_points (fst r), snd r))
     (set_free (fst (set_occupied stale_grid (0, 0, 0))) (0, 0, 0)) =
   Inr ([(1, 0, 0), (2, 0, 0)], [(3 / 2, 1 / 2, 1 / 2), (1 / 2, 1 / 2, 1 / 2)],
        [(1, 0, 0), (0, 0, 0)], True)"
  by code_simp


section \<open>Candidate voxels of a box\<close>

lemma Min_insert_min:
  "finite S \<Longrightarrow> Min (insert (min a b) S) = Min (insert a (insert (b::int) S))"
  by (cases "S = {}") (simp_all add: min.assoc)

lemma Max_insert_max:
  "finite S \<Longrightarrow> Max (insert (max a b) S) = Max (insert a (insert (b::int) S))"
  by (cases "S = {}") (simp_all add: max.assoc)

lemma fold_vmin:
  "fold vmin qs q =
     (Min (axis_i ` set (q # qs)), Min (axis_j ` set (q # qs)), Min (axis_k ` set (q # qs)))"
proof (induction qs arbitrary: q)
  case Nil
  then show ?case by (simp add: axis_i_def axis_j_def axis_k_def)
next
  case (Cons x xs)
  obtain a b c where x: "x = (a, b, c)" by (cases x)
  obtain a' b' c' where q: "q = (a', b', c')" by (cases q)
  show ?case
    unfolding fold_Cons comp_apply Cons.IH
    by (simp add: x q vmin_def axis_i_def axis_j_def axis_k_def Min_insert_min insert_commute)
qed

lemma fold_vmax:
  "fold vmax qs q =
     (Max (axis_i ` set (q # qs)), Max (axis_j ` set (q # qs)), Max (axis_k ` set (q # qs)))"
proof (induction qs arbitrary: q)
  case Nil
  then show ?case by (simp add: axis_i_def axis_j_def axis_k_def)
next
  case (Cons x xs)
  obtain a b c where x: "x = (a, b, c)" by (cases x)
  obtain a' b' c' where q: "q = (a', b', c')" by (cases q)
  show ?case
    unfolding fold_Cons comp_apply Cons.IH
    by (simp add: x q vmax_def axis_i_def axis_j_def axis_k_def Max_insert_max insert_commute)
qed

lemma set_product_ranges:
  "set (product_ranges (li, lj, lk) (ui, uj, uk)) = {li..ui} \<times> {lj..uj} \<times> {lk..uk}"
  by (auto simp: product_ranges_def)

lemma aabb_from_points_cons:
  "aabb_from_points (q # qs) =
     Inr ((Min (axis_i ` set (q # qs)), Min (axis_j ` set (q # qs)), Min (axis_k ` set (q # qs))),
          (Max (axis_i ` set (q # qs)), Max (axis_j ` set (q # qs)), Max (axis_k ` set (q # qs))))"
  by (simp add: aabb_from_points_def fold_vmin fold_vmax)

lemma vertices_nonempty: "vertex_voxels g aabb \<noteq> []"
  by (simp add: vertex_voxels_def get_aabb_vertices_def split: prod.splits)

lemma vertices_swap: "set (get_aabb_vertices (lo, hi)) = set (get_aabb_vertices (hi, lo))"
  by (cases lo, cases hi) (auto simp: get_aabb_vertices_def)

lemma voxels_from_aabb_eq:
  "voxels_from_aabb g aabb =
     Inr (product_ranges
           (Min (axis_i ` set (vertex_voxels g aabb)), Min (axis_j ` set (vertex_voxels g aabb)),
            Min (axis_k ` set (vertex_voxels g aabb)))
           (Max (axis_i ` set (vertex_voxels g aabb)), Max (axis_j ` set (vertex_voxels g aabb)),
            Max (axis_k ` set (vertex_voxels g aabb))))"
proof -
  obtain q qs where v: "vertex_voxels g aabb = q # qs"
    using vertices_nonempty[of g aabb] by (cases "vertex_voxels g aabb") simp_all
  then have "map (voxel_from_point g) (get_aabb_vertices aabb) = q # qs"
    by (simp add: vertex_voxels_def)
  then show ?thesis
    unfolding voxels_from_aabb_def v by (simp add: aabb_from_points_cons)
qed


text \<open>
  C6, as the code has it. \<open>voxels_from_aabb\<close> never fails. It voxelizes the 8 vertices
  of the box and returns the product of the inclusive per-axis ranges from the least to
  the greatest index found among them; so a box and the box with its two corners
  exchanged give the same list, and the list holds the voxels of all 8 vertices.
\<close>

theorem voxels_from_aabb_any_box:
  "(\<exists>vs. voxels_from_aabb g (lo, hi) = Inr vs \<and> voxels_from_aabb g (hi, lo) = Inr vs \<and>
     set vs =
       {Min (axis_i ` set (vertex_voxels g (lo, hi))) .. Max (axis_i ` set (vertex_voxels g (lo, hi)))} \<times>
       {Min (axis_j ` set (vertex_voxels g (lo, hi))) .. Max (axis_j ` set (vertex_voxels g (lo, hi)))} \<times>
       {Min (axis_k ` set (vertex_voxels g (lo, hi))) .. Max (axis_k ` set (vertex_voxels g (lo, hi)))} \<and>
     set (vertex_voxels g (lo, hi)) \<subseteq> set vs)"
proof -
  have sw: "set (vertex_voxels g (hi, lo)) = set (vertex_voxels g (lo, hi))"
    by (simp add: vertex_voxels_def vertices_swap[of lo hi])
  have fin: "finite (set (vertex_voxels g (lo, hi)))" by simp
  have sub: "set (vertex_voxels g (lo, hi)) \<subseteq>
       {Min (axis_i ` set (vertex_voxels g (lo, hi))) .. Max (axis_i ` set (vertex_voxels g (lo, hi)))} \<times>
       {Min (axis_j ` set (vertex_voxels g (lo, hi))) .. Max (axis_j ` set (vertex_voxels g (lo, hi)))} \<times>
       {Min (axis_k ` set (vertex_voxels g (lo, hi))) .. Max (axis_k ` set (vertex_voxels g (lo, hi)))}"
  proof
    fix v assume v: "v \<in> set (vertex_voxels g (lo, hi))"
    obtain i j k where vv: "v = (i, j, k)" by (cases v)
    from v have "axis_i v \<in> axis_i ` set (vertex_voxels g (lo, hi))"
      "axis_j v \<in> axis_j ` set (vertex_voxels g (lo, hi))"
      "axis_k v \<in> axis_k ` set (vertex_voxels g (lo, hi))" by blast+
    then show "v \<in> {Min (axis_i ` set (vertex_voxels g (lo, hi))) .. Max (axis_i ` set (vertex_voxels g (lo, hi)))} \<times>
       {Min (axis_j ` set (vertex_voxels g (lo, hi))) .. Max (axis_j ` set (vertex_voxels g (lo, hi)))} \<times>
       {Min (axis_k ` set (vertex_voxels g (lo, hi))) .. Max (axis_k ` set (vertex_voxels g (lo, hi)))}"
      unfolding vv by (simp add: axis_i_def axis_j_def axis_k_def)
  qed
  show ?thesis
    unfolding voxels_from_aabb_eq[of g "(lo, hi)"] voxels_from_aabb_eq[of g "(hi, lo)"] sw
    using sub by (simp add: set_product_ranges)
qed

text \<open>
  The claim C6 as it is written fails: for the inverted box from (1, 1, 1) to (0, 0, 0)
  on the unit grid the method returns the 8 voxels of the box from (0, 0, 0) to
  (1, 1, 1).
\<close>

theorem voxels_from_aabb_any_box_counterexample:
  "voxels_from_aabb unit_grid ((1, 1, 1), (0, 0, 0)) =
   Inr [(0, 0, 0), (0, 0, 1), (0, 1, 0), (0, 1, 1), (1, 0, 0), (1, 0, 1), (1, 1, 0), (1, 1, 1)]"
  by code_simp

section \<open>Ray tracing\<close>

text \<open>
  C2 at a failing input. On the empty unit grid, the ray from the unoccupied voxel
  (0, 0, 0) to the point (5/2, 1/2, 1/2) crosses no occupied cell, and \<open>ray_trace\<close>
  raises AttributeError instead of returning a path with success=true.
\<close>

theorem ray_trace_unfinished:
  "ray_trace unit_grid (0, 0, 0) (5 / 2, 1 / 2, 1 / 2) = Inl AttributeError"
  by code_simp

text \<open>
  C7, as the code has it. The spec's InvalidArgument would be a ValueError raised by a
  check of the direction. \<open>ray_trace\<close> has no such check and never raises it, also when
  the goal point is the centre of the start voxel; with an occupied start voxel it then
  returns the empty path and success=false.
\<close>

theorem ray_trace_no_direction_check:
  "ray_trace g start_cell goal_point \<noteq> Inl ValueError \<and>
   (is_occupied g start_cell \<longrightarrow>
      ray_trace g start_cell (center_from_voxel g start_cell) = Inr ([], False))"
  by (simp add: ray_trace_def)

theorem ray_trace_no_direction_check_witness:
  "ray_trace (grid_of [(0, 0, 0)]) (0, 0, 0) (center_from_voxel (grid_of [(0, 0, 0)]) (0, 0, 0)) =
   Inr ([], False)"
proof -
  have o: "is_occupied (grid_of [(0, 0, 0)]) (0, 0, 0)" by code_simp
  from ray_trace_no_direction_check[of "grid_of [(0, 0, 0)]" "(0, 0, 0)"] o
  show ?thesis by blast
qed

text \<open>
  The claim C7 as it is written fails: on the empty unit grid the voxel (0, 0, 0) is
  unoccupied and its centre is (1/2, 1/2, 1/2); with that goal point the exception raised
  is the AttributeError of the undefined helper, not an argument error.
\<close>

theorem ray_trace_no_direction_check_counterexample:
  "\<not> is_occupied unit_grid (0, 0, 0) \<and>
   center_from_voxel unit_grid (0, 0, 0) = (1 / 2, 1 / 2, 1 / 2) \<and>
   ray_trace unit_grid (0, 0, 0) (1 / 2, 1 / 2, 1 / 2) = Inl AttributeError"
  by code_simp

section \<open>Clusters\<close>

lemma int64_inside: "inside c \<Longrightarrow> int64 c = c \<and> int64 (c - 1) = c - 1 \<and> int64 (c + 1) = c + 1"
  by (simp add: int64_def inside_def)

lemma interior_occupied:
  assumes "interior g" and "is_occupied g (i, j, k)"
  shows "inside i \<and> inside j \<and> inside k"
proof -
  from assms(2) have "(i, j, k) \<in> set (map fst (value_from_voxel g))"
    by (simp add: contains_keys)
  with assms(1) show ?thesis
    unfolding interior_def list_all_iff by blast
qed

lemma neighbors_adjacent_iff:
  assumes "interior g" and "is_occupied g u"
  shows "w \<in> set (get_neighbors u) \<longleftrightarrow> face_adjacent u w"
proof -
  obtain i j k where u: "u = (i, j, k)" by (cases u)
  obtain a b c where w: "w = (a, b, c)" by (cases w)
  from interior_occupied[OF assms(1)] assms(2) u
  have "inside i" "inside j" "inside k" by blast+
  then show ?thesis
    unfolding u w by (auto simp: get_neighbors_def face_adjacent_def int64_inside)
qed

lemma face_adjacent_sym: "face_adjacent u w \<Longrightarrow> face_adjacent w u"
proof -
  obtain i j k where u: "u = (i, j, k)" by (cases u)
  obtain a b c where w: "w = (a, b, c)" by (cases w)
  assume "face_adjacent u w"
  then show ?thesis unfolding u w face_adjacent_def by auto
qed

lemma linked_sym: "linked g u w \<Longrightarrow> linked g w u"
  by (auto simp: linked_def face_adjacent_sym)

lemma connected_sym: "connected g u w \<Longrightarrow> connected g w u"
  unfolding connected_def
proof (induction rule: rtranclp_induct)
  case base
  then show ?case by simp
next
  case (step y z)
  from step.hyps(2) have "linked g z y" by (rule linked_sym)
  with step.IH show ?case by (meson converse_rtranclp_into_rtranclp)
qed

lemma connected_trans: "connected g u v \<Longrightarrow> connected g v w \<Longrightarrow> connected g u w"
  unfolding connected_def by (rule rtranclp_trans)

lemma connected_occupied: "connected g n v \<Longrightarrow> is_occupied g v \<Longrightarrow> is_occupied g n"
  unfolding connected_def by (induction rule: rtranclp_induct) (auto simp: linked_def)

lemma connected_step:
  "interior g \<Longrightarrow> is_occupied g c \<Longrightarrow> n \<in> set (get_neighbors c) \<Longrightarrow> connected g n v
     \<Longrightarrow> is_occupied g v \<Longrightarrow> connected g c v"
proof -
  assume i: "interior g"
    and c: "is_occupied g c" and n: "n \<in> set (get_neighbors c)" and nv: "connected g n v"
    and v: "is_occupied g v"
  from nv v have "is_occupied g n" by (rule connected_occupied)
  with c n have "linked g c n" by (simp add: linked_def neighbors_adjacent_iff[OF i c])
  then show ?thesis using nv unfolding connected_def by (rule converse_rtranclp_into_rtranclp)
qed


lemma dfs_post_nil: "dfs_post g A roots [] A \<longleftrightarrow> (\<forall>r\<in>set roots. is_occupied g r \<longrightarrow> r \<in> A)"
  by (simp add: dfs_post_def)

lemma dfs_post_cons:
  assumes "interior g" and "current \<notin> A" and "is_occupied g current"
    and "dfs_post g (insert current A) (get_neighbors current) cl A'"
  shows "dfs_post g A [current] (current # cl) A'"
proof -
  from assms(4) have a: "A' = insert current A \<union> set cl" and d: "distinct cl"
    and i: "set cl \<inter> insert current A = {}"
    and r: "\<forall>v\<in>set cl. is_occupied g v \<and> (\<exists>r\<in>set (get_neighbors current). connected g r v)"
    and c: "\<forall>v\<in>set cl. \<forall>n\<in>set (get_neighbors v). is_occupied g n \<longrightarrow> n \<in> A'"
    and n: "\<forall>r\<in>set (get_neighbors current). is_occupied g r \<longrightarrow> r \<in> A'"
    unfolding dfs_post_def by blast+
  have "\<forall>v\<in>set (current # cl). is_occupied g v \<and> (\<exists>r\<in>set [current]. connected g r v)"
  proof
    fix v assume "v \<in> set (current # cl)"
    then consider "v = current" | "v \<in> set cl" by auto
    then show "is_occupied g v \<and> (\<exists>r\<in>set [current]. connected g r v)"
    proof cases
      case 1
      with assms(3) show ?thesis by (simp add: connected_def)
    next
      case 2
      with r obtain m where "is_occupied g v" "m \<in> set (get_neighbors current)" "connected g m v"
        by blast
      with connected_step[OF assms(1) assms(3)] show ?thesis by simp
    qed
  qed
  moreover from a have "A' = A \<union> set (current # cl)" by auto
  moreover from d i have "distinct (current # cl)" by auto
  moreover from i assms(2) have "set (current # cl) \<inter> A = {}" by auto
  moreover from c n
  have "\<forall>v\<in>set (current # cl). \<forall>n\<in>set (get_neighbors v). is_occupied g n \<longrightarrow> n \<in> A'"
    by simp
  moreover from a have "\<forall>r\<in>set [current]. is_occupied g r \<longrightarrow> r \<in> A'" by simp
  ultimately show ?thesis unfolding dfs_post_def by blast
qed

lemma dfs_post_append:
  assumes "dfs_post g A [n] c1 a1" and "dfs_post g a1 ns c2 a2"
  shows "dfs_post g A (n # ns) (c1 @ c2) a2"
proof -
  from assms(1) have a1: "a1 = A \<union> set c1" and d1: "distinct c1" and i1: "set c1 \<inter> A = {}"
    and r1: "\<forall>v\<in>set c1. is_occupied g v \<and> connected g n v"
    and k1: "\<forall>v\<in>set c1. \<forall>m\<in>set (get_neighbors v). is_occupied g m \<longrightarrow> m \<in> a1"
    and n1: "is_occupied g n \<longrightarrow> n \<in> a1"
    unfolding dfs_post_def by auto
  from assms(2) have a2: "a2 = a1 \<union> set c2" and d2: "distinct c2" and i2: "set c2 \<inter> a1 = {}"
    and r2: "\<forall>v\<in>set c2. is_occupied g v \<and> (\<exists>r\<in>set ns. connected g r v)"
    and k2: "\<forall>v\<in>set c2. \<forall>m\<in>set (get_neighbors v). is_occupied g m \<longrightarrow> m \<in> a2"
    and n2: "\<forall>r\<in>set ns. is_occupied g r \<longrightarrow> r \<in> a2"
    unfolding dfs_post_def by blast+
  from a1 a2 have "a2 = A \<union> set (c1 @ c2)" by auto
  moreover from d1 d2 i2 a1 have "distinct (c1 @ c2)" by auto
  moreover from i1 i2 a1 have "set (c1 @ c2) \<inter> A = {}" by auto
  moreover from r1 r2
  have "\<forall>v\<in>set (c1 @ c2). is_occupied g v \<and> (\<exists>r\<in>set (n # ns). connected g r v)"
    by auto
  moreover from k1 k2 a2
  have "\<forall>v\<in>set (c1 @ c2). \<forall>m\<in>set (get_neighbors v). is_occupied g m \<longrightarrow> m \<in> a2"
    by auto
  moreover from n1 n2 a2 have "\<forall>r\<in>set (n # ns). is_occupied g r \<longrightarrow> r \<in> a2" by auto
  ultimately show ?thesis unfolding dfs_post_def by blast
qed

lemma dfs_sound:
  "dfs depth g A c = Some (cl, A') \<Longrightarrow> interior g \<Longrightarrow> dfs_post g A [c] cl A'"
  "dfs_neighbors depth g A ns = Some (cl, A') \<Longrightarrow> interior g \<Longrightarrow> dfs_post g A ns cl A'"
proof (induction depth g A c and depth g A ns arbitrary: cl A' and cl A'
    rule: dfs_dfs_neighbors.induct)
  case (1 g assigned current)
  then show ?case by simp
next
  case (2 depth g assigned current)
  show ?case
  proof (cases "current \<in> assigned \<or> \<not> is_occupied g current")
    case True
    with 2(2) have "cl = []" "A' = assigned" by simp_all
    with True show ?thesis by (auto simp: dfs_post_nil)
  next
    case False
    with 2(2) obtain cl' where
      n: "dfs_neighbors depth g (insert current assigned) (get_neighbors current) = Some (cl', A')"
      and cl: "cl = current # cl'"
      by (auto split: option.splits)
    from 2(1)[OF False n 2(3)] False cl show ?thesis
      by (simp add: dfs_post_cons[OF 2(3)])
  qed
next
  case (3 depth g assigned)
  then show ?case by (simp add: dfs_post_nil)
next
  case (4 depth g assigned neighbor rest)
  from 4(3) obtain c1 a1 c2 where
    d: "dfs depth g assigned neighbor = Some (c1, a1)"
    and r: "dfs_neighbors depth g a1 rest = Some (c2, A')"
    and cl: "cl = c1 @ c2"
    by (auto split: option.splits)
  from 4(1)[OF d 4(4)] 4(2)[OF d refl r 4(4)] cl show ?case
    by (simp add: dfs_post_append)
qed


lemma finite_occupied: "finite {v. is_occupied g v}"
proof -
  have "{v. is_occupied g v} = fst ` set (value_from_voxel g)"
    by (auto simp: contains_keys)
  then show ?thesis by simp
qed

lemma card_occupied: "card {v. is_occupied g v} \<le> length (value_from_voxel g)"
proof -
  have "{v. is_occupied g v} = set (map fst (value_from_voxel g))"
    by (auto simp: contains_keys)
  then show ?thesis using card_length[of "map fst (value_from_voxel g)"] by simp
qed

lemma dfs_returns:
  "card ({v. is_occupied g v} - A) < depth \<Longrightarrow> interior g \<Longrightarrow> \<exists>r. dfs depth g A c = Some r"
  "card ({v. is_occupied g v} - A) < depth \<Longrightarrow> interior g
     \<Longrightarrow> \<exists>r. dfs_neighbors depth g A ns = Some r"
proof (induction depth g A c and depth g A ns rule: dfs_dfs_neighbors.induct)
  case (1 g assigned current)
  then show ?case by simp
next
  case (2 depth g assigned current)
  show ?case
  proof (cases "current \<in> assigned \<or> \<not> is_occupied g current")
    case True
    then show ?thesis by auto
  next
    case False
    then have m: "current \<in> {v. is_occupied g v} - assigned" by simp
    have "{v. is_occupied g v} - insert current assigned =
          ({v. is_occupied g v} - assigned) - {current}" by auto
    with m have "card ({v. is_occupied g v} - insert current assigned) =
          card ({v. is_occupied g v} - assigned) - 1"
      by (simp add: finite_occupied)
    moreover from m have "0 < card ({v. is_occupied g v} - assigned)"
      using finite_occupied[of g] by (auto simp: card_gt_0_iff)
    ultimately have "card ({v. is_occupied g v} - insert current assigned) < depth"
      using 2(2) by linarith
    from 2(1)[OF False this 2(3)] False show ?thesis
      by (auto split: option.splits)
  qed
next
  case (3 depth g assigned)
  then show ?case by simp
next
  case (4 depth g assigned neighbor rest)
  from 4(1)[OF 4(3) 4(4)] obtain c1 a1 where d: "dfs depth g assigned neighbor = Some (c1, a1)"
    by auto
  from dfs_sound(1)[OF d 4(4)] have "assigned \<subseteq> a1" by (auto simp: dfs_post_def)
  then have "{v. is_occupied g v} - a1 \<subseteq> {v. is_occupied g v} - assigned" by auto
  then have "card ({v. is_occupied g v} - a1) \<le> card ({v. is_occupied g v} - assigned)"
    by (intro card_mono) (simp_all add: finite_occupied)
  with 4(3) have "card ({v. is_occupied g v} - a1) < depth" by simp
  from 4(2)[OF d refl this 4(4)] d show ?case by auto
qed

lemma closed_connected:
  assumes "\<forall>v\<in>A. \<forall>n\<in>set (get_neighbors v). is_occupied g n \<longrightarrow> n \<in> A"
    and "u \<in> A" and "connected g u v" and itr: "interior g"
  shows "v \<in> A"
  using assms(3) unfolding connected_def
proof (induction rule: rtranclp_induct)
  case base
  from assms(2) show ?case .
next
  case (step y z)
  from step.hyps(2) have "is_occupied g y" "face_adjacent y z" "is_occupied g z"
    by (simp_all add: linked_def)
  with neighbors_adjacent_iff[OF itr] have "z \<in> set (get_neighbors y)" "is_occupied g z"
    by simp_all
  with step.IH assms(1) show ?case by blast
qed

lemma clusters_step:
  assumes inv: "clusters_inv g A cs" and d: "dfs depth g A c = Some (cl, A')"
    and itr: "interior g"
  shows "clusters_inv g A' (if cl \<noteq> [] then cs @ [cl] else cs)"
    and "is_occupied g c \<longrightarrow> c \<in> A'" and "A \<subseteq> A'"
proof -
  from dfs_sound(1)[OF d itr] have a: "A' = A \<union> set cl" and dc: "distinct cl"
    and dj: "set cl \<inter> A = {}"
    and r: "\<forall>v\<in>set cl. is_occupied g v \<and> connected g c v"
    and k: "\<forall>v\<in>set cl. \<forall>n\<in>set (get_neighbors v). is_occupied g n \<longrightarrow> n \<in> A'"
    and o: "is_occupied g c \<longrightarrow> c \<in> A'"
    unfolding dfs_post_def by auto
  from inv have s: "set (concat cs) = A" and di: "distinct (concat cs)" and ne: "[] \<notin> set cs"
    and oc: "\<forall>v\<in>A. is_occupied g v"
    and cl: "\<forall>v\<in>A. \<forall>n\<in>set (get_neighbors v). is_occupied g n \<longrightarrow> n \<in> A"
    and cc: "\<forall>c\<in>set cs. \<forall>u\<in>set c. set c = {v. connected g u v}"
    unfolding clusters_inv_def by blast+
  from o show "is_occupied g c \<longrightarrow> c \<in> A'" .
  from a show "A \<subseteq> A'" by auto
  show "clusters_inv g A' (if cl \<noteq> [] then cs @ [cl] else cs)"
  proof (cases "cl = []")
    case True
    with a inv show ?thesis by simp
  next
    case False
    have cl': "\<forall>v\<in>A'. \<forall>n\<in>set (get_neighbors v). is_occupied g n \<longrightarrow> n \<in> A'"
      using a cl k by blast
    have comp: "set cl = {v. connected g u v}" if u: "u \<in> set cl" for u
    proof
      from u r have cu: "connected g c u" by blast
      show "set cl \<subseteq> {v. connected g u v}"
      proof
        fix v assume "v \<in> set cl"
        with r have "connected g c v" by blast
        with connected_sym[OF cu] have "connected g u v" by (rule connected_trans)
        then show "v \<in> {v. connected g u v}" by simp
      qed
      show "{v. connected g u v} \<subseteq> set cl"
      proof
        fix v assume "v \<in> {v. connected g u v}"
        then have uv: "connected g u v" by simp
        from u a have "u \<in> A'" by simp
        from closed_connected[OF cl' this uv itr] have "v \<in> A'" .
        moreover have "v \<notin> A"
        proof
          assume "v \<in> A"
          from closed_connected[OF cl this connected_sym[OF uv] itr] have "u \<in> A" .
          with u dj show False by blast
        qed
        ultimately show "v \<in> set cl" using a by simp
      qed
    qed
    from s a have "set (concat (cs @ [cl])) = A'" by simp
    moreover from di dc dj s have "distinct (concat (cs @ [cl]))" by auto
    moreover from ne False have "[] \<notin> set (cs @ [cl])" by simp
    moreover from oc r a have "\<forall>v\<in>A'. is_occupied g v" by blast
    moreover from cc comp
    have "\<forall>c\<in>set (cs @ [cl]). \<forall>u\<in>set c. set c = {v. connected g u v}" by simp
    ultimately have "clusters_inv g A' (cs @ [cl])"
      using cl' unfolding clusters_inv_def by blast
    with False show ?thesis by simp
  qed
qed

lemma clusters_loop_inv:
  assumes "clusters_inv g A cs" and "card ({v. is_occupied g v} - A) < depth"
    and "interior g"
  shows "\<exists>res A'. clusters_loop depth g cs A vs = Some res \<and> clusters_inv g A' res \<and>
           A \<subseteq> A' \<and> {v\<in>set vs. is_occupied g v} \<subseteq> A'"
  using assms
proof (induction vs arbitrary: A cs)
  case Nil
  then show ?case by auto
next
  case (Cons c vs)
  from dfs_returns(1)[OF Cons.prems(2) Cons.prems(3)] obtain cl A1
    where d: "dfs depth g A c = Some (cl, A1)"
    by fastforce
  note st = clusters_step[OF Cons.prems(1) d Cons.prems(3)]
  from st(3) have "{v. is_occupied g v} - A1 \<subseteq> {v. is_occupied g v} - A" by auto
  then have "card ({v. is_occupied g v} - A1) \<le> card ({v. is_occupied g v} - A)"
    by (intro card_mono) (simp_all add: finite_occupied)
  with Cons.prems(2) have f: "card ({v. is_occupied g v} - A1) < depth" by simp
  from Cons.IH[OF st(1) f Cons.prems(3)] obtain res A' where
    l: "clusters_loop depth g (if cl \<noteq> [] then cs @ [cl] else cs) A1 vs = Some res"
    and i: "clusters_inv g A' res" and sub: "A1 \<subseteq> A'"
    and v: "{v\<in>set vs. is_occupied g v} \<subseteq> A'"
    by blast
  from d l have "clusters_loop depth g cs A (c # vs) = Some res" by simp
  moreover from st(3) sub have "A \<subseteq> A'" by blast
  moreover from st(2) sub v have "{v\<in>set (c # vs). is_occupied g v} \<subseteq> A'" by auto
  ultimately show ?case using i by blast
qed


text \<open>
  C3, as the code has it. On a grid whose indices are all strictly inside the int64
  range (none is its least or its greatest value), with more nesting depth than there
  are occupied voxels, \<open>get_clusters\<close> returns, and its
  clusters partition the occupied voxels: no voxel occurs twice, every occupied voxel
  occurs, no cluster is empty, and each cluster is the whole set of voxels connected to
  any of its members by face adjacency. The three sample grids give two singletons, one
  cluster of two, and two singletons for the diagonal pair.
\<close>

theorem get_clusters_components:
  "(interior g \<and> length (value_from_voxel g) < depth \<longrightarrow>
      (\<exists>clusters. get_clusters depth g None = Some clusters \<and>
         distinct (concat clusters) \<and> set (concat clusters) = {v. is_occupied g v} \<and>
         [] \<notin> set clusters \<and>
         (\<forall>c\<in>set clusters. \<forall>u\<in>set c. set c = {v. connected g u v}))) \<and>
   get_clusters 1000 (grid_of [(0, 0, 0), (5, 5, 5)]) None = Some [[(0, 0, 0)], [(5, 5, 5)]] \<and>
   get_clusters 1000 (grid_of [(0, 0, 0), (0, 0, 1)]) None = Some [[(0, 0, 0), (0, 0, 1)]] \<and>
   get_clusters 1000 (grid_of [(0, 0, 0), (1, 1, 0)]) None = Some [[(0, 0, 0)], [(1, 1, 0)]]"
proof (intro conjI impI)
  assume "interior g \<and> length (value_from_voxel g) < depth"
  then have itr: "interior g" and assms: "length (value_from_voxel g) < depth" by simp_all
  show "\<exists>clusters. get_clusters depth g None = Some clusters \<and>
         distinct (concat clusters) \<and> set (concat clusters) = {v. is_occupied g v} \<and>
         [] \<notin> set clusters \<and>
         (\<forall>c\<in>set clusters. \<forall>u\<in>set c. set c = {v. connected g u v})"
  proof -
    have i0: "clusters_inv g {} []" by (simp add: clusters_inv_def)
    from card_occupied[of g] assms have f: "card ({v. is_occupied g v} - {}) < depth" by simp
    from clusters_loop_inv[OF i0 f itr, of "occupied g"] obtain res A' where
      l: "clusters_loop depth g [] {} (occupied g) = Some res" and i: "clusters_inv g A' res"
      and v: "{v\<in>set (occupied g). is_occupied g v} \<subseteq> A'"
      by blast
    have "set (occupied g) = {v. is_occupied g v}"
      by (auto simp: occupied_def contains_keys)
    with v have "{v. is_occupied g v} \<subseteq> A'" by auto
    moreover from i have "A' \<subseteq> {v. is_occupied g v}" by (auto simp: clusters_inv_def)
    ultimately have "A' = {v. is_occupied g v}" by blast
    with i l show ?thesis
      unfolding clusters_inv_def get_clusters_def by auto
  qed
next
  show "get_clusters 1000 (grid_of [(0, 0, 0), (5, 5, 5)]) None =
        Some [[(0, 0, 0)], [(5, 5, 5)]]"
    by code_simp
next
  show "get_clusters 1000 (grid_of [(0, 0, 0), (0, 0, 1)]) None = Some [[(0, 0, 0), (0, 0, 1)]]"
    by code_simp
next
  show "get_clusters 1000 (grid_of [(0, 0, 0), (1, 1, 0)]) None =
        Some [[(0, 0, 0)], [(1, 1, 0)]]"
    by code_simp
qed

theorem get_clusters_components_witness:
  "\<exists>clusters. get_clusters 3 (grid_of [(0, 0, 0), (0, 0, 1)]) None = Some clusters \<and>
     distinct (concat clusters) \<and>
     set (concat clusters) = {v. is_occupied (grid_of [(0, 0, 0), (0, 0, 1)]) v} \<and>
     [] \<notin> set clusters \<and>
     (\<forall>c\<in>set clusters. \<forall>u\<in>set c.
        set c = {v. connected (grid_of [(0, 0, 0), (0, 0, 1)]) u v})"
proof -
  have i: "interior (grid_of [(0, 0, 0), (0, 0, 1)])" by code_simp
  have d: "length (value_from_voxel (grid_of [(0, 0, 0), (0, 0, 1)])) < 3" by code_simp
  from get_clusters_components[of "grid_of [(0, 0, 0), (0, 0, 1)]" 3] i d
  show ?thesis by blast
qed

text \<open>
  The claim C3 as it is written fails at the ends of the int64 range: the voxels
  (9223372036854775807, 0, 0) and (-9223372036854775808, 0, 0) are not face adjacent,
  yet the neighbour of the one computed by \<open>get_neighbors\<close> wraps around to the other,
  and the grid that holds just these two gives a single cluster.
\<close>

theorem get_clusters_components_counterexample:
  "\<not> face_adjacent (- 9223372036854775808, 0, 0) (9223372036854775807, 0, 0) \<and>
   get_neighbors (- 9223372036854775808, 0, 0) ! 0 = (9223372036854775807, 0, 0) \<and>
   get_clusters 1000
     (grid_of [(9223372036854775807, 0, 0), (- 9223372036854775808, 0, 0)]) None =
   Some [[(- 9223372036854775808, 0, 0), (9223372036854775807, 0, 0)]]"
  by code_simp

section \<open>Vertical intervals\<close>

lemma runs_spans:
  "runs i j start l ks acc = acc @ map (\<lambda>iv. (i, j, iv)) (spans start l ks)"
  by (induction ks arbitrary: start l acc) simp_all

lemma spans_props:
  assumes "sorted_wrt (<) (l # ks)" and "s \<le> l"
  shows "(\<Union>(a, b)\<in>set (spans s l ks). {a..b}) = {s..l} \<union> set ks"
    and "sorted_wrt (\<lambda>(a, b) (c, d). b + 1 < c) (spans s l ks)"
    and "\<forall>(a, b)\<in>set (spans s l ks). s \<le> a \<and> a \<le> b"
  using assms
proof (induction ks arbitrary: s l)
  case Nil
  {
    case 1 then show ?case by simp
  next
    case 2 then show ?case by simp
  next
    case 3 then show ?case by simp
  }
next
  case (Cons k ks)
  {
    case 1
    from 1 have lk: "l < k" and st: "sorted_wrt (<) (k # ks)" by auto
    show ?case
    proof (cases "k = l + 1")
      case True
      with 1 have "s \<le> k" by simp
      from Cons.IH(1)[OF st this] True 1(2) show ?thesis by auto
    next
      case False
      from Cons.IH(1)[OF st order_refl] False show ?thesis by auto
    qed
  next
    case 2
    from 2 have lk: "l < k" and st: "sorted_wrt (<) (k # ks)" by auto
    show ?case
    proof (cases "k = l + 1")
      case True
      with 2 have "s \<le> k" by simp
      from Cons.IH(2)[OF st this] True show ?thesis by simp
    next
      case False
      with lk have "l + 1 < k" by simp
      with Cons.IH(2)[OF st order_refl] Cons.IH(3)[OF st order_refl] False show ?thesis
        by auto
    qed
  next
    case 3
    from 3 have lk: "l < k" and st: "sorted_wrt (<) (k # ks)" by auto
    show ?case
    proof (cases "k = l + 1")
      case True
      with 3 have "s \<le> k" by simp
      from Cons.IH(3)[OF st this] True show ?thesis by simp
    next
      case False
      from Cons.IH(3)[OF st order_refl] False lk 3(2) show ?thesis by auto
    qed
  }
qed


lemma strict_sorted_heights: "sorted_wrt (<) (sorted_list_of_set (s :: int set))"
  using strict_sorted_list_of_set[of s] by simp

lemma col_spans_props:
  assumes "finite s" and "s \<noteq> {}"
  shows "(\<Union>(a, b)\<in>set (col_spans s). {a..b}) = s"
    and "sorted_wrt (\<lambda>(a, b) (c, d). b + 1 < c) (col_spans s)"
    and "\<forall>(a, b)\<in>set (col_spans s). a \<le> b"
proof -
  from assms obtain h t where ht: "sorted_list_of_set s = h # t"
    by (cases "sorted_list_of_set s") simp_all
  from strict_sorted_heights[of s] ht have st: "sorted_wrt (<) (h # t)" by simp
  from ht assms(1) have se: "set (h # t) = s" by (metis set_sorted_list_of_set)
  have cs: "col_spans s = spans h h t" by (simp add: col_spans_def ht)
  from spans_props(1)[OF st order_refl] se
  show "(\<Union>(a, b)\<in>set (col_spans s). {a..b}) = s" unfolding cs by auto
  from spans_props(2)[OF st order_refl]
  show "sorted_wrt (\<lambda>(a, b) (c, d). b + 1 < c) (col_spans s)" unfolding cs .
  from spans_props(3)[OF st order_refl]
  show "\<forall>(a, b)\<in>set (col_spans s). a \<le> b" unfolding cs by auto
qed

lemma one_span:
  fixes R :: "(int \<times> int) list"
  assumes "sorted_wrt (\<lambda>(a, b) (c, d). b + 1 < c) R" and "\<forall>(a, b)\<in>set R. a \<le> b"
    and "k \<in> (\<Union>(a, b)\<in>set R. {a..b})"
  shows "length (filter (\<lambda>iv. fst iv \<le> k \<and> k \<le> snd iv) R) = 1"
  using assms
proof (induction R)
  case Nil
  then show ?case by simp
next
  case (Cons p R)
  obtain a b where p: "p = (a, b)" by (cases p)
  from Cons.prems(1) p have far: "\<forall>(c, d)\<in>set R. b + 1 < c" and st: "sorted_wrt (\<lambda>(a, b) (c, d). b + 1 < c) R"
    by auto
  from Cons.prems(2) have le: "\<forall>(a, b)\<in>set R. a \<le> b" by simp
  show ?case
  proof (cases "a \<le> k \<and> k \<le> b")
    case True
    have "\<not> (fst iv \<le> k \<and> k \<le> snd iv)" if "iv \<in> set R" for iv
    proof -
      obtain c d where iv: "iv = (c, d)" by (cases iv)
      with that far have "b + 1 < c" by blast
      with True iv show ?thesis by simp
    qed
    then have "filter (\<lambda>iv. fst iv \<le> k \<and> k \<le> snd iv) R = []"
      by (simp add: filter_empty_conv)
    with True p show ?thesis by simp
  next
    case False
    with Cons.prems(3) p have "k \<in> (\<Union>(a, b)\<in>set R. {a..b})" by auto
    from Cons.IH[OF st le this] False p show ?thesis by simp
  qed
qed

lemma span_maximal:
  fixes R :: "(int \<times> int) list"
  assumes "sorted_wrt (\<lambda>(a, b) (c, d). b + 1 < c) R" and "\<forall>(a, b)\<in>set R. a \<le> b"
    and "(a, b) \<in> set R"
  shows "a - 1 \<notin> (\<Union>(a, b)\<in>set R. {a..b}) \<and> b + 1 \<notin> (\<Union>(a, b)\<in>set R. {a..b})"
  using assms
proof (induction R)
  case Nil
  then show ?case by simp
next
  case (Cons p R)
  obtain c d where p: "p = (c, d)" by (cases p)
  from Cons.prems(1) p have far: "\<forall>(e, f)\<in>set R. d + 1 < e" and st: "sorted_wrt (\<lambda>(a, b) (c, d). b + 1 < c) R"
    by auto
  from Cons.prems(2) p have le: "\<forall>(a, b)\<in>set R. a \<le> b" and cd: "c \<le> d" by simp_all
  show ?case
  proof (cases "(a, b) = (c, d)")
    case True
    then have ab: "a = c" "b = d" by simp_all
    have "c - 1 \<notin> {e..f} \<and> d + 1 \<notin> {e..f}" if "(e, f) \<in> set R" for e f
    proof -
      from that far have "d + 1 < e" by blast
      with cd show ?thesis by simp
    qed
    with cd show ?thesis unfolding ab p by auto
  next
    case False
    with Cons.prems(3) p have m: "(a, b) \<in> set R" by auto
    with far have "d + 1 < a" by auto
    moreover from m le have "a \<le> b" by auto
    ultimately show ?thesis using Cons.IH[OF st le m] p by auto
  qed
qed

lemma heights_fold:
  "distinct (map fst d) \<Longrightarrow>
   distinct (map fst (fold (\<lambda>(i, j, k) d. AList.update_with_aux {} (i, j) (insert k) d) vs d)) \<and>
   (\<forall>c. hts (fold (\<lambda>(i, j, k) d. AList.update_with_aux {} (i, j) (insert k) d) vs d) c =
        hts d c \<union> {k. (fst c, snd c, k) \<in> set vs}) \<and>
   fst ` set (fold (\<lambda>(i, j, k) d. AList.update_with_aux {} (i, j) (insert k) d) vs d) =
     fst ` set d \<union> (\<lambda>v. (fst v, fst (snd v))) ` set vs"
proof (induction vs arbitrary: d)
  case Nil
  then show ?case by simp
next
  case (Cons v vs)
  obtain i j k where v: "v = (i, j, k)" by (cases v)
  let ?d = "AList.update_with_aux {} (i, j) (insert k) d"
  from Cons.prems have dd: "distinct (map fst ?d)" by simp
  have h: "hts ?d c = hts d c \<union> (if c = (i, j) then {k} else {})" for c
    by (auto simp: hts_def map_of_update_with_aux split: option.splits)
  have ks: "fst ` set ?d = insert (i, j) (fst ` set d)"
    by (simp add: dom_update_with_aux)
  from Cons.IH[OF dd] have
    1: "distinct (map fst (fold (\<lambda>(i, j, k) d. AList.update_with_aux {} (i, j) (insert k) d) vs ?d))"
    and 2: "\<And>c. hts (fold (\<lambda>(i, j, k) d. AList.update_with_aux {} (i, j) (insert k) d) vs ?d) c =
        hts ?d c \<union> {k. (fst c, snd c, k) \<in> set vs}"
    and 3: "fst ` set (fold (\<lambda>(i, j, k) d. AList.update_with_aux {} (i, j) (insert k) d) vs ?d) =
     fst ` set ?d \<union> (\<lambda>v. (fst v, fst (snd v))) ` set vs"
    by blast+
  show ?case
  proof (intro conjI allI)
    show "distinct (map fst (fold (\<lambda>(i, j, k) d. AList.update_with_aux {} (i, j) (insert k) d) (v # vs) d))"
      using 1 by (simp add: v)
    show "hts (fold (\<lambda>(i, j, k) d. AList.update_with_aux {} (i, j) (insert k) d) (v # vs) d) c =
        hts d c \<union> {k. (fst c, snd c, k) \<in> set (v # vs)}" for c
      using 2[of c] h[of c] by (cases c) (auto simp: v)
    show "fst ` set (fold (\<lambda>(i, j, k) d. AList.update_with_aux {} (i, j) (insert k) d) (v # vs) d) =
     fst ` set d \<union> (\<lambda>v. (fst v, fst (snd v))) ` set (v # vs)"
      using 3 ks by (simp add: v)
  qed
qed

lemma set_occupied_list: "set (occupied g) = {v. is_occupied g v}"
  by (auto simp: occupied_def contains_keys)

lemma voxel_heights_props:
  "distinct (map fst (voxel_heights g))"
  "(c, s) \<in> set (voxel_heights g) \<Longrightarrow> s = heights_at g (fst c) (snd c) \<and> finite s \<and> s \<noteq> {}"
  "heights_at g i j \<noteq> {} \<Longrightarrow> map_of (voxel_heights g) (i, j) = Some (heights_at g i j)"
proof -
  have e: "hts [] c = {}" for c by (simp add: hts_def)
  from heights_fold[of "[]" "occupied g"]
  have hf: "distinct (map fst (voxel_heights g)) \<and>
    (\<forall>c. hts (voxel_heights g) c = {k. (fst c, snd c, k) \<in> set (occupied g)}) \<and>
    fst ` set (voxel_heights g) = (\<lambda>v. (fst v, fst (snd v))) ` set (occupied g)"
    unfolding voxel_heights_def e by simp
  from hf have d: "distinct (map fst (voxel_heights g))" by blast
  from hf have h: "hts (voxel_heights g) c = {k. (fst c, snd c, k) \<in> set (occupied g)}" for c
    by blast
  from hf have k: "fst ` set (voxel_heights g) = (\<lambda>v. (fst v, fst (snd v))) ` set (occupied g)"
    by blast
  from d show "distinct (map fst (voxel_heights g))" .
  have ha: "hts (voxel_heights g) c = heights_at g (fst c) (snd c)" for c
    by (simp add: h heights_at_def set_occupied_list)
  have fin: "finite (heights_at g i j)" for i j
  proof -
    have "heights_at g i j \<subseteq> (\<lambda>v. snd (snd v)) ` set (occupied g)"
      by (force simp: heights_at_def set_occupied_list)
    then show ?thesis by (rule finite_subset) simp
  qed
  {
    assume m: "(c, s) \<in> set (voxel_heights g)"
    with d have "map_of (voxel_heights g) c = Some s" by simp
    with ha[of c] have s: "s = heights_at g (fst c) (snd c)" by (simp add: hts_def)
    from m have "c \<in> fst ` set (voxel_heights g)" by force
    with k obtain v where "v \<in> set (occupied g)" "c = (fst v, fst (snd v))" by auto
    then have "snd (snd v) \<in> heights_at g (fst c) (snd c)"
      by (simp add: heights_at_def set_occupied_list)
    with s fin show "s = heights_at g (fst c) (snd c) \<and> finite s \<and> s \<noteq> {}" by auto
  }
  {
    assume ne: "heights_at g i j \<noteq> {}"
    then obtain k' where "is_occupied g (i, j, k')" by (auto simp: heights_at_def)
    then have "(i, j, k') \<in> set (occupied g)" by (simp add: set_occupied_list)
    then have "(i, j) \<in> (\<lambda>v. (fst v, fst (snd v))) ` set (occupied g)" by force
    with k have "(i, j) \<in> fst ` set (voxel_heights g)" by simp
    then obtain s where "map_of (voxel_heights g) (i, j) = Some s"
      by (metis map_of_eq_None_iff not_Some_eq)
    with ha[of "(i, j)"] show "map_of (voxel_heights g) (i, j) = Some (heights_at g i j)"
      by (simp add: hts_def)
  }
qed


lemma intervals_loop_eq:
  "\<forall>(c, s)\<in>set d. finite s \<and> s \<noteq> {} \<Longrightarrow> intervals_loop d acc = Inr (acc @ intervals_of d)"
proof (induction d arbitrary: acc)
  case Nil
  then show ?case by (simp add: intervals_of_def)
next
  case (Cons p d)
  obtain i j s where p: "p = ((i, j), s)" by (cases p) auto
  from Cons.prems p have fs: "finite s" "s \<noteq> {}" and rest: "\<forall>(c, s)\<in>set d. finite s \<and> s \<noteq> {}"
    by auto
  from fs obtain h t where ht: "sorted_list_of_set s = h # t"
    by (cases "sorted_list_of_set s") simp_all
  from Cons.IH[OF rest] show ?case
    by (simp add: p ht runs_spans intervals_of_def col_spans_def)
qed

lemma column_append: "column i j (xs @ ys) = column i j xs @ column i j ys"
  by (simp add: column_def)

lemma column_tagged:
  "column i j (map (\<lambda>iv. (i', j', iv)) R) = (if i' = i \<and> j' = j then R else [])"
  by (induction R) (auto simp: column_def)

lemma column_intervals_of:
  "distinct (map fst d) \<Longrightarrow>
   column i j (intervals_of d) = (case map_of d (i, j) of None \<Rightarrow> [] | Some s \<Rightarrow> col_spans s)"
proof (induction d)
  case Nil
  then show ?case by (simp add: intervals_of_def column_def)
next
  case (Cons p d)
  obtain i' j' s where p: "p = ((i', j'), s)" by (cases p) auto
  from Cons.prems p have nk: "(i', j') \<notin> fst ` set d" and dd: "distinct (map fst d)" by auto
  have split: "intervals_of (((i', j'), s) # d) =
      map (\<lambda>iv. (i', j', iv)) (col_spans s) @ intervals_of d"
    by (simp add: intervals_of_def)
  show ?case
  proof (cases "i' = i \<and> j' = j")
    case True
    with nk have "map_of d (i, j) = None" by (simp add: map_of_eq_None_iff)
    with Cons.IH[OF dd] True show ?thesis
      unfolding p split column_append column_tagged by simp
  next
    case False
    with Cons.IH[OF dd] show ?thesis
      unfolding p split column_append column_tagged by auto
  qed
qed

lemma column_Cons:
  "column i j ((i', j', sp) # ivs) =
     (if i' = i \<and> j' = j then sp # column i j ivs else column i j ivs)"
  by (simp add: column_def)

lemma column_Nil: "column i j [] = []"
  by (simp add: column_def)

lemma covers_column:
  "length (filter (\<lambda>iv. covers iv (i, j, k)) ivs) =
   length (filter (\<lambda>p. fst p \<le> k \<and> k \<le> snd p) (column i j ivs))"
  by (induction ivs) (auto simp: covers_def column_def)

lemma in_column: "(i, j, a, b) \<in> set ivs \<longleftrightarrow> (a, b) \<in> set (column i j ivs)"
proof (induction ivs)
  case Nil
  then show ?case by (simp add: column_Nil)
next
  case (Cons x ivs)
  obtain i' j' sp where x: "x = (i', j', sp)" by (cases x)
  from Cons.IH show ?case unfolding x column_Cons by auto
qed

lemma col_spans_sample: "col_spans {2, 3, 4, 7} = [(2, 4), (7, 7)]"
  by code_simp


text \<open>
  C4. \<open>create_intervals\<close> returns for every grid. Every occupied voxel is covered by
  exactly one emitted interval (of its own column); the intervals of any column appear
  in ascending order, each ending before the next starts; every emitted interval is a
  run of occupied heights that cannot be extended at either end; a column whose occupied
  heights are 2, 3, 4 and 7 yields exactly (2, 4) and (7, 7), as the grid with just that
  column shows.
\<close>

theorem create_intervals_contract:
  "(\<exists>ivs. create_intervals g = Inr ivs \<and>
     (\<forall>v. is_occupied g v \<longrightarrow> length (filter (\<lambda>iv. covers iv v) ivs) = 1) \<and>
     (\<forall>i j. sorted_wrt (\<lambda>(a, b) (c, d). b < c) (column i j ivs)) \<and>
     (\<forall>i j a b. (i, j, (a, b)) \<in> set ivs \<longrightarrow>
        a \<le> b \<and> (\<forall>k. a \<le> k \<and> k \<le> b \<longrightarrow> is_occupied g (i, j, k)) \<and>
        \<not> is_occupied g (i, j, a - 1) \<and> \<not> is_occupied g (i, j, b + 1)) \<and>
     (\<forall>i j. heights_at g i j = {2, 3, 4, 7} \<longrightarrow> column i j ivs = [(2, 4), (7, 7)])) \<and>
   create_intervals (grid_of [(0, 0, 2), (0, 0, 3), (0, 0, 4), (0, 0, 7)]) =
     Inr [(0, 0, (2, 4)), (0, 0, (7, 7))]"
proof (rule conjI)
  show "\<exists>ivs. create_intervals g = Inr ivs \<and>
     (\<forall>v. is_occupied g v \<longrightarrow> length (filter (\<lambda>iv. covers iv v) ivs) = 1) \<and>
     (\<forall>i j. sorted_wrt (\<lambda>(a, b) (c, d). b < c) (column i j ivs)) \<and>
     (\<forall>i j a b. (i, j, (a, b)) \<in> set ivs \<longrightarrow>
        a \<le> b \<and> (\<forall>k. a \<le> k \<and> k \<le> b \<longrightarrow> is_occupied g (i, j, k)) \<and>
        \<not> is_occupied g (i, j, a - 1) \<and> \<not> is_occupied g (i, j, b + 1)) \<and>
     (\<forall>i j. heights_at g i j = {2, 3, 4, 7} \<longrightarrow> column i j ivs = [(2, 4), (7, 7)])"
  proof -
  define ivs where "ivs = intervals_of (voxel_heights g)"
  have ne: "\<forall>(c, s)\<in>set (voxel_heights g). finite s \<and> s \<noteq> {}"
    using voxel_heights_props(2)[of _ _ g] by blast
  have ci: "create_intervals g = Inr ivs"
    using intervals_loop_eq[OF ne, of "[]"] by (simp add: create_intervals_def ivs_def)
  have col: "column i j ivs = col_spans (heights_at g i j)" if "heights_at g i j \<noteq> {}" for i j
    using column_intervals_of[OF voxel_heights_props(1), of i j g]
      voxel_heights_props(3)[OF that] by (simp add: ivs_def)
  have col': "heights_at g i j \<noteq> {}" if "column i j ivs \<noteq> []" for i j
  proof (cases "map_of (voxel_heights g) (i, j)")
    case None
    with column_intervals_of[OF voxel_heights_props(1), of i j g] that show ?thesis
      by (simp add: ivs_def)
  next
    case (Some s)
    then have "((i, j), s) \<in> set (voxel_heights g)" by (rule map_of_SomeD)
    from voxel_heights_props(2)[OF this] show ?thesis by auto
  qed
  have fin: "finite (heights_at g i j)" if "heights_at g i j \<noteq> {}" for i j
  proof -
    from voxel_heights_props(3)[OF that]
    have "((i, j), heights_at g i j) \<in> set (voxel_heights g)" by (rule map_of_SomeD)
    from voxel_heights_props(2)[OF this] show ?thesis by simp
  qed
  have one: "length (filter (\<lambda>iv. covers iv v) ivs) = 1" if "is_occupied g v" for v
  proof -
    obtain i j k where v: "v = (i, j, k)" by (cases v)
    from that v have k: "k \<in> heights_at g i j" by (simp add: heights_at_def)
    then have n: "heights_at g i j \<noteq> {}" by blast
    note p = col_spans_props[OF fin[OF n] n]
    from k p(1) have "k \<in> (\<Union>(a, b)\<in>set (col_spans (heights_at g i j)). {a..b})" by simp
    from one_span[OF p(2) p(3) this] show ?thesis
      by (simp add: v covers_column col[OF n])
  qed
  have asc: "sorted_wrt (\<lambda>(a, b) (c, d). b < c) (column i j ivs)" for i j
  proof (cases "column i j ivs = []")
    case True
    then show ?thesis by simp
  next
    case False
    note n = col'[OF False]
    from col_spans_props(2)[OF fin[OF n] n]
    have "sorted_wrt (\<lambda>(a, b) (c, d). b + 1 < c) (column i j ivs)" by (simp add: col[OF n])
    then show ?thesis by (rule sorted_wrt_mono_rel[rotated]) auto
  qed
  have mx: "a \<le> b \<and> (\<forall>k. a \<le> k \<and> k \<le> b \<longrightarrow> is_occupied g (i, j, k)) \<and>
        \<not> is_occupied g (i, j, a - 1) \<and> \<not> is_occupied g (i, j, b + 1)"
    if "(i, j, (a, b)) \<in> set ivs" for i j a b
  proof -
    from that have m: "(a, b) \<in> set (column i j ivs)" by (simp add: in_column)
    then have "column i j ivs \<noteq> []" by auto
    note n = col'[OF this]
    note p = col_spans_props[OF fin[OF n] n]
    from m have m': "(a, b) \<in> set (col_spans (heights_at g i j))" by (simp add: col[OF n])
    with p(3) have ab: "a \<le> b" by auto
    from m' p(1) have "{a..b} \<subseteq> heights_at g i j" by blast
    then have "\<forall>k. a \<le> k \<and> k \<le> b \<longrightarrow> is_occupied g (i, j, k)"
      by (auto simp: heights_at_def)
    moreover from span_maximal[OF p(2) p(3) m']
    have "a - 1 \<notin> heights_at g i j \<and> b + 1 \<notin> heights_at g i j"
      unfolding p(1) .
    then have "\<not> is_occupied g (i, j, a - 1) \<and> \<not> is_occupied g (i, j, b + 1)"
      by (simp add: heights_at_def)
    ultimately show ?thesis using ab by blast
  qed
  have sample: "column i j ivs = [(2, 4), (7, 7)]" if "heights_at g i j = {2, 3, 4, 7}" for i j
  proof -
    from that have "heights_at g i j \<noteq> {}" by simp
    from col[OF this] that show ?thesis by (simp add: col_spans_sample)
  qed
  from ci one asc mx sample show ?thesis by blast
qed
next
  show "create_intervals (grid_of [(0, 0, 2), (0, 0, 3), (0, 0, 4), (0, 0, 7)]) =
     Inr [(0, 0, (2, 4)), (0, 0, (7, 7))]"
    by code_simp
qed

theorem create_intervals_contract_witness:
  "\<exists>ivs. create_intervals (grid_of [(0, 0, 7), (1, 0, 5), (0, 0, 3), (0, 0, 2), (0, 0, 4)]) = Inr ivs \<and>
     length (filter (\<lambda>iv. covers iv (0, 0, 3)) ivs) = 1 \<and>
     column 0 0 ivs = [(2, 4), (7, 7)]"
proof -
  let ?g = "grid_of [(0, 0, 7), (1, 0, 5), (0, 0, 3), (0, 0, 2), (0, 0, 4)]"
  have o: "is_occupied ?g (0, 0, 3)" by code_simp
  have m: "value_from_voxel ?g =
    [((0, 0, 7), False), ((1, 0, 5), False), ((0, 0, 3), False), ((0, 0, 2), False),
     ((0, 0, 4), False)]"
    by code_simp
  have h: "heights_at ?g 0 0 = {2, 3, 4, 7}"
    unfolding heights_at_def contains_def m by (auto split: if_splits)
  from create_intervals_contract[of ?g] o h show ?thesis by blast
qed


section \<open>Height map\<close>

lemma paint_step_simps:
  "paint_step z h q (Inl e) = Inl e"
  "paint_step z h (c, y) (Inr hm) = paint z hm (int h - y - 1, c)"
  by (simp_all add: paint_step_def)

lemma paint_step_Inl: "fold (paint_step z h) ps (Inl e) = Inl e"
  by (induction ps) (simp_all add: paint_step_simps)

lemma paint_all_fold: "paint_all z h hm ps = fold (paint_step z h) ps (Inr hm)"
proof (induction ps arbitrary: hm)
  case Nil
  then show ?case by simp
next
  case (Cons p ps)
  obtain c y where p: "p = (c, y)" by (cases p)
  show ?case
    by (cases "paint z hm (int h - y - 1, c)")
       (simp_all add: p paint_step_simps paint_step_Inl Cons.IH)
qed

lemma voxel_step_simps:
  "voxel_step g w h pp ps v (Inl e) = Inl e"
  "voxel_step g w h pp ps v (Inr hm) = paint_voxel g w h pp ps v hm"
  by (simp_all add: voxel_step_def)

lemma voxel_step_Inl: "fold (voxel_step g w h pp ps) vs (Inl e) = Inl e"
  by (induction vs) (simp_all add: voxel_step_simps)

lemma height_loop_fold:
  "height_loop g w h pp ps vs hm = fold (voxel_step g w h pp ps) vs (Inr hm)"
proof (induction vs arbitrary: hm)
  case Nil
  then show ?case by simp
next
  case (Cons v vs)
  show ?case
    by (cases "paint_voxel g w h pp ps v hm")
       (simp_all add: voxel_step_simps voxel_step_Inl Cons.IH)
qed

lemma paint_step_commute:
  "paint_step z1 h q1 (paint_step z2 h q2 st) = paint_step z2 h q2 (paint_step z1 h q1 st)"
proof (cases st)
  case (Inl e)
  then show ?thesis by (simp add: paint_step_def)
next
  case (Inr hm)
  let ?r1 = "(int h - snd q1 - 1, fst q1)" and ?r2 = "(int h - snd q2 - 1, fst q2)"
  show ?thesis
  proof (cases "locate hm ?r1")
    case None
    then show ?thesis
      by (cases "locate hm ?r2") (simp_all add: Inr paint_step_def paint_def locate_def)
  next
    case (Some p1)
    note s1 = Some
    show ?thesis
    proof (cases "locate hm ?r2")
      case None
      with s1 show ?thesis by (simp add: Inr paint_step_def paint_def locate_def)
    next
      case (Some p2)
      with s1 show ?thesis
        by (cases "p1 = p2")
           (auto simp: Inr paint_step_def paint_def locate_def fun_upd_twist max.assoc
              max.commute max.left_commute)
    qed
  qed
qed


lemma folds_commute:
  assumes "\<And>x y. x \<in> set xs \<Longrightarrow> y \<in> set ys \<Longrightarrow> f x \<circ> g y = g y \<circ> f x"
  shows "fold f xs \<circ> fold g ys = fold g ys \<circ> fold f xs"
proof -
  have inner: "f x \<circ> fold g ys = fold g ys \<circ> f x" if "x \<in> set xs" for x
    by (rule fold_commute) (use assms that in auto)
  have "fold g ys \<circ> fold f xs = fold f xs \<circ> fold g ys"
    by (rule fold_commute) (use inner in \<open>auto simp: fun_eq_iff\<close>)
  then show ?thesis by simp
qed

lemma voxel_step_as_fold:
  "\<exists>qs. voxel_step g w h pp ps v = fold (paint_step (scaled_z g v) h) qs"
proof -
  obtain x1 y1 x2 y2 where f: "footprint g w h pp ps v = ((x1, y1), (x2, y2))"
    by (cases "footprint g w h pp ps v") auto
  show ?thesis
  proof (cases "x1 < 0 \<or> int w \<le> x2 \<or> y1 < 0 \<or> int h \<le> y2")
    case True
    have "voxel_step g w h pp ps v st = fold (paint_step (scaled_z g v) h) [] st" for st
      using True f by (cases st) (simp_all add: voxel_step_simps paint_voxel_def)
    then show ?thesis by blast
  next
    case False
    have "voxel_step g w h pp ps v st =
          fold (paint_step (scaled_z g v) h) [(c, y). c \<leftarrow> [x1..x2], y \<leftarrow> [y1..y2]] st" for st
      using False f
      by (cases st) (simp_all add: voxel_step_simps paint_voxel_def paint_all_fold paint_step_Inl)
    then show ?thesis by blast
  qed
qed

lemma voxel_step_commute:
  "voxel_step g w h pp ps v \<circ> voxel_step g w h pp ps v' =
   voxel_step g w h pp ps v' \<circ> voxel_step g w h pp ps v"
proof -
  obtain qs where a: "voxel_step g w h pp ps v = fold (paint_step (scaled_z g v) h) qs"
    using voxel_step_as_fold by blast
  obtain qs' where b: "voxel_step g w h pp ps v' = fold (paint_step (scaled_z g v') h) qs'"
    using voxel_step_as_fold by blast
  show ?thesis
    unfolding a b by (rule folds_commute) (simp add: fun_eq_iff paint_step_commute)
qed

lemma height_loop_permute:
  assumes "mset vs = mset vs'"
  shows "height_loop g w h pp ps vs hm = height_loop g w h pp ps vs' hm"
proof -
  have "fold (voxel_step g w h pp ps) vs = fold (voxel_step g w h pp ps) vs'"
    by (rule fold_multiset_equiv) (simp_all add: voxel_step_commute assms)
  then show ?thesis by (simp add: height_loop_fold)
qed

lemma paint_result:
  "paint z hm rc = Inr hm' \<Longrightarrow>
     \<exists>p. locate hm rc = Some p \<and> hm' = hm\<lparr>cell := (cell hm)(p := max (cell hm p) z)\<rparr>"
  by (auto simp: paint_def split: option.splits)

lemma paint_mono: "paint z hm rc = Inr hm' \<Longrightarrow> cell hm p \<le> cell hm' p"
  by (auto dest!: paint_result)

lemma paint_all_mono: "paint_all z h hm qs = Inr hm' \<Longrightarrow> cell hm p \<le> cell hm' p"
proof (induction qs arbitrary: hm)
  case Nil
  then show ?case by simp
next
  case (Cons q qs)
  obtain c y where q: "q = (c, y)" by (cases q)
  from Cons.prems q obtain hm1 where 1: "paint z hm (int h - y - 1, c) = Inr hm1"
    and 2: "paint_all z h hm1 qs = Inr hm'"
    by (auto split: sum.splits)
  from paint_mono[OF 1] Cons.IH[OF 2] show ?case by (rule order_trans)
qed

lemma paint_voxel_mono:
  "paint_voxel g w h pp ps v hm = Inr hm' \<Longrightarrow> cell hm p \<le> cell hm' p"
  by (auto simp: paint_voxel_def split: prod.splits if_splits dest: paint_all_mono)

lemma height_loop_mono:
  "height_loop g w h pp ps vs hm = Inr hm' \<Longrightarrow> cell hm p \<le> cell hm' p"
proof (induction vs arbitrary: hm)
  case Nil
  then show ?case by simp
next
  case (Cons v vs)
  from Cons.prems obtain hm1 where 1: "paint_voxel g w h pp ps v hm = Inr hm1"
    and 2: "height_loop g w h pp ps vs hm1 = Inr hm'"
    by (auto split: sum.splits)
  from paint_voxel_mono[OF 1] Cons.IH[OF 2] show ?case by (rule order_trans)
qed

lemma tallest_fold:
  "distinct (map fst d) \<Longrightarrow>
   distinct (map fst (fold (\<lambda>(i, j, k) d.
             AList.update (i, j)
               (max k (case map_of d (i, j) of None \<Rightarrow> k | Some t \<Rightarrow> t)) d) vs d)) \<and>
   (\<forall>c. map_of (fold (\<lambda>(i, j, k) d.
             AList.update (i, j)
               (max k (case map_of d (i, j) of None \<Rightarrow> k | Some t \<Rightarrow> t)) d) vs d) c =
        tallest_after (map_of d c) {k. (fst c, snd c, k) \<in> set vs})"
proof (induction vs arbitrary: d)
  case Nil
  then show ?case by (simp add: tallest_after_def)
next
  case (Cons v vs)
  obtain i j k where v: "v = (i, j, k)" by (cases v)
  let ?step = "\<lambda>(i, j, k) d.
             AList.update (i, j)
               (max k (case map_of d (i, j) of None \<Rightarrow> k | Some t \<Rightarrow> t)) d"
  let ?t = "max k (case map_of d (i, j) of None \<Rightarrow> k | Some t \<Rightarrow> t)"
  let ?d = "AList.update (i, j) ?t d"
  from Cons.prems have dd: "distinct (map fst ?d)" by (rule distinct_update)
  from Cons.IH[OF dd] have
    1: "distinct (map fst (fold ?step vs ?d))"
    and 2: "\<And>c. map_of (fold ?step vs ?d) c =
        tallest_after (map_of ?d c) {k. (fst c, snd c, k) \<in> set vs}"
    by blast+
  have fin: "finite {k. (a, b, k) \<in> set vs}" for a b
  proof -
    have "{k. (a, b, k) \<in> set vs} \<subseteq> (\<lambda>v. snd (snd v)) ` set vs" by force
    then show ?thesis by (rule finite_subset) simp
  qed
  have 3: "tallest_after (map_of ?d c) {k. (fst c, snd c, k) \<in> set vs} =
           tallest_after (map_of d c) {k'. (fst c, snd c, k') \<in> set (v # vs)}" for c
  proof (cases "c = (i, j)")
    case False
    then have "{k'. (fst c, snd c, k') \<in> set (v # vs)} = {k. (fst c, snd c, k) \<in> set vs}"
      by (auto simp: v)
    with False show ?thesis by (simp add: update_conv')
  next
    case True
    let ?K = "{k. (i, j, k) \<in> set vs}"
    have K: "{k'. (fst c, snd c, k') \<in> set (v # vs)} = insert k ?K"
      by (auto simp: v True)
    have m: "map_of ?d c = Some ?t" by (simp add: update_conv' True)
    show ?thesis
    proof (cases "?K = {}")
      case True
      then show ?thesis
        unfolding K m using \<open>c = (i, j)\<close>
        by (simp add: tallest_after_def max.commute split: option.splits)
    next
      case False
      with fin[of i j] have "Max (insert k ?K) = max k (Max ?K)" by simp
      with False show ?thesis
        unfolding K m using \<open>c = (i, j)\<close>
        by (simp add: tallest_after_def max.commute max.left_commute max.assoc
            split: option.splits)
    qed
  qed
  show ?case
    using 1 2 3 by (simp add: v)
qed

lemma tallest_voxel_props:
  "distinct (map fst (tallest_voxel g))"
  "map_of (tallest_voxel g) (i, j) =
     (if heights_at g i j = {} then None else Some (Max (heights_at g i j)))"
proof -
  have h: "{k. (i, j, k) \<in> set (occupied g)} = heights_at g i j" for i j
    by (simp add: heights_at_def set_occupied_list)
  from tallest_fold[of "[]" "occupied g"]
  have t: "distinct (map fst (tallest_voxel g)) \<and>
    (\<forall>c. map_of (tallest_voxel g) c =
        tallest_after None {k. (fst c, snd c, k) \<in> set (occupied g)})"
    unfolding tallest_voxel_def by simp
  then show "distinct (map fst (tallest_voxel g))" by blast
  from t have "map_of (tallest_voxel g) (i, j) =
        tallest_after None {k. (i, j, k) \<in> set (occupied g)}"
    by simp
  then show "map_of (tallest_voxel g) (i, j) =
     (if heights_at g i j = {} then None else Some (Max (heights_at g i j)))"
    by (simp add: h tallest_after_def)
qed

lemma project2d_tops:
  "distinct (project2d g)"
  "set (project2d g) = {(i, j, k). heights_at g i j \<noteq> {} \<and> k = Max (heights_at g i j)}"
proof -
  have inj: "inj (\<lambda>((i, j), k). (i, j, k :: int))"
    by (auto simp: inj_on_def)
  from tallest_voxel_props(1)[of g] have "distinct (tallest_voxel g)"
    by (rule distinct_map[THEN iffD1, THEN conjunct1])
  then show "distinct (project2d g)"
    unfolding project2d_def by (simp add: distinct_map inj_on_def split_beta prod_eq_iff)
  show "set (project2d g) = {(i, j, k). heights_at g i j \<noteq> {} \<and> k = Max (heights_at g i j)}"
  proof (rule set_eqI)
    fix v :: voxel
    obtain i j k where v: "v = (i, j, k)" by (cases v)
    have "v \<in> set (project2d g) \<longleftrightarrow> ((i, j), k) \<in> set (tallest_voxel g)"
      unfolding project2d_def v by force
    also have "\<dots> \<longleftrightarrow> map_of (tallest_voxel g) (i, j) = Some k"
      using tallest_voxel_props(1)[of g] by (simp add: map_of_eq_Some_iff)
    also have "\<dots> \<longleftrightarrow> heights_at g i j \<noteq> {} \<and> k = Max (heights_at g i j)"
      by (auto simp: tallest_voxel_props(2))
    finally show "v \<in> set (project2d g) \<longleftrightarrow>
        v \<in> {(i, j, k). heights_at g i j \<noteq> {} \<and> k = Max (heights_at g i j)}"
      by (simp add: v)
  qed
qed


lemma locate_by_shape: "shape hm = (w, h) \<Longrightarrow> locate hm rc = locate (zeros (w, h)) rc"
  by (simp add: locate_def zeros_def)

lemma Max_insert_max_real:
  "finite S \<Longrightarrow> Max (insert (max a b) S) = Max (insert a (insert (b::real) S))"
  by (cases "S = {}") (simp_all add: max.assoc)

lemma paint_all_cells:
  assumes "paint_all z h hm qs = Inr hm'"
  shows "shape hm' = shape hm \<and>
         cell hm' p =
           (if \<exists>q\<in>set qs. locate hm (int h - snd q - 1, fst q) = Some p
            then max (cell hm p) z else cell hm p)"
  using assms
proof (induction qs arbitrary: hm)
  case Nil
  then show ?case by simp
next
  case (Cons q qs)
  obtain c y where q: "q = (c, y)" by (cases q)
  from Cons.prems q obtain hm1 where 1: "paint z hm (int h - y - 1, c) = Inr hm1"
    and 2: "paint_all z h hm1 qs = Inr hm'"
    by (auto split: sum.splits)
  from paint_result[OF 1] obtain p0 where l: "locate hm (int h - y - 1, c) = Some p0"
    and h1: "hm1 = hm\<lparr>cell := (cell hm)(p0 := max (cell hm p0) z)\<rparr>"
    by blast
  from h1 have sh: "shape hm1 = shape hm" by simp
  then have lo: "locate hm1 rc = locate hm rc" for rc by (simp add: locate_def)
  from Cons.IH[OF 2] have ih: "shape hm' = shape hm1"
    "cell hm' p =
       (if \<exists>q\<in>set qs. locate hm1 (int h - snd q - 1, fst q) = Some p
        then max (cell hm1 p) z else cell hm1 p)"
    by blast+
  from ih(2) have ih2: "cell hm' p =
       (if \<exists>q\<in>set qs. locate hm (int h - snd q - 1, fst q) = Some p
        then max (cell hm1 p) z else cell hm1 p)"
    unfolding lo .
  have c1: "cell hm1 p = (if p = p0 then max (cell hm p) z else cell hm p)"
    by (simp add: h1)
  have ex: "(\<exists>q\<in>set (q # qs). locate hm (int h - snd q - 1, fst q) = Some p) \<longleftrightarrow>
            p = p0 \<or> (\<exists>q\<in>set qs. locate hm (int h - snd q - 1, fst q) = Some p)"
    using l by (auto simp: q)
  from ih(1) sh have "shape hm' = shape hm" by simp
  moreover have "cell hm' p =
           (if \<exists>q\<in>set (q # qs). locate hm (int h - snd q - 1, fst q) = Some p
            then max (cell hm p) z else cell hm p)"
    unfolding ex ih2 c1 by auto
  ultimately show ?case by blast
qed

lemma set_map_filter: "set (List.map_filter f xs) = {y. \<exists>x\<in>set xs. f x = Some y}"
proof (induction xs)
  case Nil
  then show ?case by (simp add: List.map_filter_simps)
next
  case (Cons x xs)
  then show ?case by (cases "f x") (auto simp: List.map_filter_simps)
qed

lemma paint_voxel_cells:
  assumes "paint_voxel g w h pp ps v hm = Inr hm'" and "shape hm = (w, h)"
  shows "shape hm' = (w, h) \<and>
         cell hm' p =
           (if p \<in> painted g w h pp ps v then max (cell hm p) (scaled_z g v) else cell hm p)"
proof -
  obtain x1 y1 x2 y2 where f: "footprint g w h pp ps v = ((x1, y1), (x2, y2))"
    by (cases "footprint g w h pp ps v") auto
  show ?thesis
  proof (cases "x1 < 0 \<or> int w \<le> x2 \<or> y1 < 0 \<or> int h \<le> y2")
    case True
    with assms f show ?thesis by (simp add: paint_voxel_def painted_def)
  next
    case False
    let ?qs = "[(c, y). c \<leftarrow> [x1..x2], y \<leftarrow> [y1..y2]]"
    from False assms(1) f have pa: "paint_all (scaled_z g v) h hm ?qs = Inr hm'"
      by (simp add: paint_voxel_def)
    from False f have "painted g w h pp ps v =
        {p. \<exists>q\<in>set ?qs. (case q of (c, y) \<Rightarrow> locate (zeros (w, h)) (int h - y - 1, c)) = Some p}"
      by (simp add: painted_def set_map_filter)
    then have "(\<exists>q\<in>set ?qs. locate hm (int h - snd q - 1, fst q) = Some p) \<longleftrightarrow>
          p \<in> painted g w h pp ps v"
      by (simp add: locate_by_shape[OF assms(2)] case_prod_beta)
    with paint_all_cells[OF pa, of p] assms(2) show ?thesis by simp
  qed
qed

lemma height_loop_cells:
  assumes "height_loop g w h pp ps vs hm = Inr hm'" and "shape hm = (w, h)"
  shows "cell hm' p =
         Max (insert (cell hm p) (scaled_z g ` {v \<in> set vs. p \<in> painted g w h pp ps v}))"
  using assms
proof (induction vs arbitrary: hm)
  case Nil
  then show ?case by simp
next
  case (Cons v vs)
  from Cons.prems(1) obtain hm1 where 1: "paint_voxel g w h pp ps v hm = Inr hm1"
    and 2: "height_loop g w h pp ps vs hm1 = Inr hm'"
    by (auto split: sum.splits)
  from paint_voxel_cells[OF 1 Cons.prems(2), of p] have sh: "shape hm1 = (w, h)"
    and c1: "cell hm1 p =
           (if p \<in> painted g w h pp ps v then max (cell hm p) (scaled_z g v) else cell hm p)"
    by blast+
  let ?S = "scaled_z g ` {v \<in> set vs. p \<in> painted g w h pp ps v}"
  have fin: "finite ?S" by simp
  from Cons.IH[OF 2 sh] have ih: "cell hm' p = Max (insert (cell hm1 p) ?S)" .
  show ?case
  proof (cases "p \<in> painted g w h pp ps v")
    case True
    then have "scaled_z g ` {u \<in> set (v # vs). p \<in> painted g w h pp ps u} =
               insert (scaled_z g v) ?S" by auto
    with ih c1 True show ?thesis
      by (simp add: Max_insert_max_real[OF fin])
  next
    case False
    then have "scaled_z g ` {u \<in> set (v # vs). p \<in> painted g w h pp ps u} = ?S" by auto
    with ih c1 False show ?thesis by simp
  qed
qed

lemma create_height_map_cells:
  assumes "create_height_map g pp ps w h = Inr hm"
  shows "cell hm p =
         Max (insert 0 (scaled_z g ` {v \<in> set (project2d g). p \<in> painted g w h pp ps v}))"
proof -
  have "shape (zeros (w, h)) = (w, h)" "cell (zeros (w, h)) p = 0" by (simp_all add: zeros_def)
  with height_loop_cells[of g w h pp ps "project2d g" "zeros (w, h)" hm p] assms
  show ?thesis by (simp add: create_height_map_def)
qed

lemma create_height_map_any_order:
  assumes "mset vs = mset (project2d g)"
  shows "height_loop g w h pp ps vs (zeros (w, h)) = create_height_map g pp ps w h"
  unfolding create_height_map_def by (rule height_loop_permute[OF assms])


text \<open>
  C9. A pixel write that succeeds stores the maximum of the old value and the new height
  at the addressed cell and nothing else, and no cell of the map is ever lowered by the
  loop. The entries that \<open>create_height_map\<close> visits, those of \<open>project2d\<close>, are the tops
  of the occupied columns, one for each column; visiting them in any order gives the
  outcome of \<open>create_height_map\<close>, and when that outcome is a map, each of its cells
  holds the largest of 0 and the normalized heights of the tops whose footprint covers
  the cell. On the grid with cells of height 1/5 whose occupied voxels are (0, 0, 1),
  (0, 0, 2), (1, 0, 3) and (1, 0, 6), the tops are (0, 0, 2) and (1, 0, 6), with
  normalized heights 0.3 and 0.7 and the same footprint, the single pixel of a 1 by 1
  image over a plane of size 10; \<open>create_height_map\<close> leaves 0.7 there, and so does the
  loop over the two tops in either order.
\<close>

theorem height_map_pointwise_max:
  "(paint z hm rc = Inr hm' \<longrightarrow>
      (\<exists>p. locate hm rc = Some p \<and> hm' = hm\<lparr>cell := (cell hm)(p := max (cell hm p) z)\<rparr>)) \<and>
   (height_loop g w h pp ps vs hm = Inr hm'' \<longrightarrow> cell hm q \<le> cell hm'' q) \<and>
   (mset vs = mset vs' \<longrightarrow>
      height_loop g w h pp ps vs hm = height_loop g w h pp ps vs' hm) \<and>
   (mset vs = mset (project2d g) \<longrightarrow>
      height_loop g w h pp ps vs (zeros (w, h)) = create_height_map g pp ps w h) \<and>
   (create_height_map g pp ps w h = Inr height_map \<longrightarrow>
      cell height_map q =
      Max (insert 0 (scaled_z g ` {v \<in> set (project2d g). q \<in> painted g w h pp ps v}))) \<and>
   distinct (project2d g) \<and>
   set (project2d g) = {(i, j, k). heights_at g i j \<noteq> {} \<and> k = Max (heights_at g i j)} \<and>
   occupied two_columns = [(0, 0, 1), (0, 0, 2), (1, 0, 3), (1, 0, 6)] \<and>
   project2d two_columns = [(0, 0, 2), (1, 0, 6)] \<and>
   scaled_z two_columns (0, 0, 2) = 3 / 10 \<and> scaled_z two_columns (1, 0, 6) = 7 / 10 \<and>
   footprint two_columns 1 1 (0, 0, 0) 10 (0, 0, 2) = ((0, 0), (0, 0)) \<and>
   footprint two_columns 1 1 (0, 0, 0) 10 (1, 0, 6) = ((0, 0), (0, 0)) \<and>
   map_sum id (\<lambda>a. cell a (0, 0)) (create_height_map two_columns (0, 0, 0) 10 1 1) =
     Inr (7 / 10) \<and>
   map_sum id (\<lambda>a. cell a (0, 0))
     (height_loop two_columns 1 1 (0, 0, 0) 10 [(0, 0, 2), (1, 0, 6)] (zeros (1, 1))) =
     Inr (7 / 10) \<and>
   map_sum id (\<lambda>a. cell a (0, 0))
     (height_loop two_columns 1 1 (0, 0, 0) 10 [(1, 0, 6), (0, 0, 2)] (zeros (1, 1))) =
     Inr (7 / 10)"
proof (intro conjI impI)
  assume "paint z hm rc = Inr hm'"
  then show "\<exists>p. locate hm rc = Some p \<and> hm' = hm\<lparr>cell := (cell hm)(p := max (cell hm p) z)\<rparr>"
    by (rule paint_result)
next
  assume "height_loop g w h pp ps vs hm = Inr hm''"
  then show "cell hm q \<le> cell hm'' q" by (rule height_loop_mono)
next
  assume "mset vs = mset vs'"
  then show "height_loop g w h pp ps vs hm = height_loop g w h pp ps vs' hm"
    by (rule height_loop_permute)
next
  assume "mset vs = mset (project2d g)"
  then show "height_loop g w h pp ps vs (zeros (w, h)) = create_height_map g pp ps w h"
    by (rule create_height_map_any_order)
next
  assume "create_height_map g pp ps w h = Inr height_map"
  then show "cell height_map q =
      Max (insert 0 (scaled_z g ` {v \<in> set (project2d g). q \<in> painted g w h pp ps v}))"
    by (rule create_height_map_cells)
next
  show "distinct (project2d g)" using project2d_tops[of g] by blast
next
  show "set (project2d g) = {(i, j, k). heights_at g i j \<noteq> {} \<and> k = Max (heights_at g i j)}"
    using project2d_tops[of g] by blast
next
  show "occupied two_columns = [(0, 0, 1), (0, 0, 2), (1, 0, 3), (1, 0, 6)]" by code_simp
next
  show "project2d two_columns = [(0, 0, 2), (1, 0, 6)]" by code_simp
next
  show "scaled_z two_columns (0, 0, 2) = 3 / 10" by code_simp
next
  show "scaled_z two_columns (1, 0, 6) = 7 / 10" by code_simp
next
  show "footprint two_columns 1 1 (0, 0, 0) 10 (0, 0, 2) = ((0, 0), (0, 0))" by code_simp
next
  show "footprint two_columns 1 1 (0, 0, 0) 10 (1, 0, 6) = ((0, 0), (0, 0))" by code_simp
next
  show "map_sum id (\<lambda>a. cell a (0, 0)) (create_height_map two_columns (0, 0, 0) 10 1 1) =
     Inr (7 / 10)"
    by code_simp
next
  show "map_sum id (\<lambda>a. cell a (0, 0))
     (height_loop two_columns 1 1 (0, 0, 0) 10 [(0, 0, 2), (1, 0, 6)] (zeros (1, 1))) =
     Inr (7 / 10)"
    by code_simp
next
  show "map_sum id (\<lambda>a. cell a (0, 0))
     (height_loop two_columns 1 1 (0, 0, 0) 10 [(1, 0, 6), (0, 0, 2)] (zeros (1, 1))) =
     Inr (7 / 10)"
    by code_simp
qed

theorem height_map_pointwise_max_witness:
  "locate (zeros (1, 1)) (0, 0) = Some (0, 0) \<and>
   mset [(1, 0, 6), (0, 0, 2)] = mset (project2d two_columns) \<and>
   height_loop two_columns 1 1 (0, 0, 0) 10 [(1, 0, 6), (0, 0, 2)] (zeros (1, 1)) =
   create_height_map two_columns (0, 0, 0) 10 1 1 \<and>
   height_loop two_columns 1 1 (0, 0, 0) 10 [(1, 0, 6), (0, 0, 2)] (zeros (1, 1)) =
   height_loop two_columns 1 1 (0, 0, 0) 10 [(0, 0, 2), (1, 0, 6)] (zeros (1, 1)) \<and>
   (\<exists>height_map. create_height_map two_columns (0, 0, 0) 10 1 1 = Inr height_map \<and>
      cell (zeros (1, 1)) (0, 0) \<le> cell height_map (0, 0) \<and>
      cell height_map (0, 0) =
      Max (insert 0 (scaled_z two_columns `
             {v \<in> set (project2d two_columns).
                (0, 0) \<in> painted two_columns 1 1 (0, 0, 0) 10 v})) \<and>
      cell height_map (0, 0) = 7 / 10)"
proof -
  let ?c = "create_height_map two_columns (0, 0, 0) 10 1 1"
  let ?l = "height_loop two_columns 1 1 (0, 0, 0) 10 [(1, 0, 6), (0, 0, 2)] (zeros (1, 1))"
  have l: "locate (zeros (1, 1)) (0, 0) = Some (0, 0)"
    by (simp add: locate_def zeros_def np_index_def)
  then have p: "paint (7 / 10) (zeros (1, 1)) (0, 0) =
        Inr ((zeros (1, 1))\<lparr>cell := (cell (zeros (1, 1)))
               ((0, 0) := max (cell (zeros (1, 1)) (0, 0)) (7 / 10))\<rparr>)"
    by (simp add: paint_def)
  have p2: "project2d two_columns = [(0, 0, 2), (1, 0, 6)]" by code_simp
  have m2: "mset [(1, 0, 6), (0, 0, 2)] = mset (project2d two_columns)"
    unfolding p2 by simp
  have m: "mset [(1, 0, 6), (0, 0, 2 :: int)] = mset [(0, 0, 2), (1 :: int, 0 :: int, 6)]"
    by simp
  have v: "map_sum id (\<lambda>a. cell a (0, 0)) ?c = Inr (7 / 10)" by code_simp
  then obtain height_map where r: "?c = Inr height_map" and r7: "cell height_map (0, 0) = 7 / 10"
    by (cases ?c) simp_all
  note t = height_map_pointwise_max[where z = "7 / 10" and hm = "zeros (1, 1)" and rc = "(0, 0)"
      and hm' = "(zeros (1, 1))\<lparr>cell := (cell (zeros (1, 1)))
               ((0, 0) := max (cell (zeros (1, 1)) (0, 0)) (7 / 10))\<rparr>"
      and g = two_columns and w = 1 and h = 1 and pp = "(0, 0, 0)" and ps = 10
      and vs = "[(1, 0, 6), (0, 0, 2)]" and hm'' = height_map and q = "(0, 0)"
      and vs' = "[(0, 0, 2), (1, 0, 6)]" and height_map = height_map]
  from t m2 have e: "?l = ?c" by blast
  from t m have e2: "?l =
     height_loop two_columns 1 1 (0, 0, 0) 10 [(0, 0, 2), (1, 0, 6)] (zeros (1, 1))"
    by blast
  from e r have r': "?l = Inr height_map" by simp
  from t r' have mono: "cell (zeros (1, 1)) (0, 0) \<le> cell height_map (0, 0)" by blast
  from t r have mx: "cell height_map (0, 0) =
      Max (insert 0 (scaled_z two_columns `
             {v \<in> set (project2d two_columns).
                (0, 0) \<in> painted two_columns 1 1 (0, 0, 0) 10 v}))"
    by blast
  from l m2 e e2 r mono mx r7 show ?thesis by blast
qed

end
